theory Spec2Isabelle
  imports Complex_Main "HOL-Library.Monad_Syntax" "HOL-Library.Product_Lexorder"
begin

section \<open>The data model (constants.py, app.py)\<close>

datatype CellType = EMPTY | WALL | START | TARGET

datatype CellState = NONE | FRONTIER | EXPLORED | PATH | FRONTIER2 | EXPLORED2

datatype algorithm = BFS | DFS | UCS | DLS | IDDFS | Bidirectional

text \<open>A node is a (row, col) pair of Python integers.\<close>

type_synonym node = "int \<times> int"

section \<open>Python lists: indexing that can raise\<close>

text \<open>
  A result of \<open>None\<close> stands for a raised exception (\<open>IndexError\<close>, \<open>KeyError\<close>)
  or, for the predecessor walk, for a loop that never ends. A negative index counts
  from the end of the list, as in Python.
\<close>

definition py_index :: "'a list \<Rightarrow> int \<Rightarrow> nat option" where
  "py_index xs i =
     (if 0 \<le> i \<and> i < int (length xs) then Some (nat i)
      else if i < 0 \<and> 0 \<le> int (length xs) + i then Some (nat (int (length xs) + i))
      else None)"

definition py_get :: "'a list \<Rightarrow> int \<Rightarrow> 'a option" where
  "py_get xs i = map_option (\<lambda>k. xs ! k) (py_index xs i)"

definition py_set :: "'a list \<Rightarrow> int \<Rightarrow> 'a \<Rightarrow> 'a list option" where
  "py_set xs i v = map_option (\<lambda>k. xs[k := v]) (py_index xs i)"

text \<open>\<open>m[r][c]\<close> and \<open>m[r][c] = v\<close> on a list of lists.\<close>

definition cell_at :: "'a list list \<Rightarrow> int \<Rightarrow> int \<Rightarrow> 'a option" where
  "cell_at m r c = do { line \<leftarrow> py_get m r; py_get line c }"

definition set_cell :: "'a list list \<Rightarrow> node \<Rightarrow> 'a \<Rightarrow> 'a list list option" where
  "set_cell m n v = do {
     line \<leftarrow> py_get m (fst n);
     line' \<leftarrow> py_set line (snd n) v;
     py_set m (fst n) line' }"

text \<open>A \<open>for\<close> loop whose body can raise: the first exception ends the loop.\<close>

fun for_each :: "('a \<Rightarrow> 's \<Rightarrow> 's option) \<Rightarrow> 'a list \<Rightarrow> 's \<Rightarrow> 's option" where
  "for_each body [] s = Some s"
| "for_each body (x # xs) s =
     (case body x s of None \<Rightarrow> None | Some s' \<Rightarrow> for_each body xs s')"

section \<open>The neighbor model (algorithms.py)\<close>

definition movements :: "(int \<times> int) list" where
  "movements = [(-1, 0), (0, 1), (1, 0), (1, 1), (0, -1), (-1, -1)]"

definition try_move :: "CellType list list \<Rightarrow> node \<Rightarrow> int \<Rightarrow> int \<Rightarrow> int \<times> int
    \<Rightarrow> node list \<Rightarrow> node list option" where
  "try_move grid node rows cols d neighbors =
     (let new_row = fst node + fst d; new_col = snd node + snd d in
      if 0 \<le> new_row \<and> new_row < rows \<and> 0 \<le> new_col \<and> new_col < cols then
        do {
          kind \<leftarrow> cell_at grid new_row new_col;
          if kind \<noteq> WALL then Some (neighbors @ [(new_row, new_col)]) else Some neighbors
        }
      else Some neighbors)"

definition get_neighbors :: "CellType list list \<Rightarrow> node \<Rightarrow> int \<Rightarrow> int \<Rightarrow> node list option" where
  "get_neighbors grid node rows cols = for_each (try_move grid node rows cols) movements []"

definition get_move_cost :: "node \<Rightarrow> node \<Rightarrow> real" where
  "get_move_cost from_node to_node =
     (if \<bar>fst from_node - fst to_node\<bar> + \<bar>snd from_node - snd to_node\<bar> = 2 then 1.414
      else 1.0)"

section \<open>The application state (app.py)\<close>

text \<open>
  What \<open>finish_search\<close> hands to \<open>update_status\<close>: the numbers it formats into the
  message (steps, explored nodes, \<open>len(final_path)\<close>) on success, the step count on
  failure. \<open>SEARCHING\<close> is the message of \<open>start_search\<close>.
\<close>

datatype status = SEARCHING | PATH_FOUND int nat nat | NO_PATH int

text \<open>
  The search-related attributes of \<open>PathfinderApp\<close>. Python's one attribute
  \<open>frontier\<close> holds a deque or list of nodes (BFS, DFS), a heap of (cost, node) pairs
  (UCS) or a list of (node, depth) pairs (DLS, IDDFS), according to the algorithm
  \<open>start_search\<close> initialised it for; the record has one field for each shape.
  A frontier that is \<open>None\<close> and an empty one are both falsy, and the step functions
  only test the frontier's truth before they pop: both are the empty list here.
  \<open>came_from\<close> maps a node to its predecessor, which is \<open>None\<close> for the start.
  Costs are Python floats; they are modelled as real numbers.
\<close>

record app =
  rows :: int
  cols :: int
  grid :: "CellType list list"
  cell_states :: "CellState list list"
  start :: node
  target :: node
  selected_algorithm :: algorithm
  frontier :: "node list"
  frontier_heap :: "(real \<times> node) list"
  frontier_depth :: "(node \<times> int) list"
  explored :: "node set"
  came_from :: "node \<rightharpoonup> node option"
  final_path :: "node list"
  search_complete :: bool
  searching :: bool
  step_count :: int
  depth_limit :: int
  current_depth_limit :: int
  cost_so_far :: "node \<rightharpoonup> real"
  frontier_forward :: "node list"
  frontier_backward :: "node list"
  explored_forward :: "node set"
  explored_backward :: "node set"
  came_from_forward :: "node \<rightharpoonup> node option"
  came_from_backward :: "node \<rightharpoonup> node option"
  meeting_point :: "node option"
  status_message :: status

section \<open>Path reconstruction\<close>

definition paint :: "app \<Rightarrow> node \<Rightarrow> CellState \<Rightarrow> app option" where
  "paint app n v = do {
     cs \<leftarrow> set_cell (cell_states app) n v;
     Some (app\<lparr>cell_states := cs\<rparr>) }"

definition mark_node :: "node \<Rightarrow> app \<Rightarrow> app option" where
  "mark_node n app =
     (if n \<noteq> start app \<and> n \<noteq> target app then paint app n PATH else Some app)"

definition mark_path :: "app \<Rightarrow> app option" where
  "mark_path app = for_each mark_node (final_path app) app"

text \<open>
  The loop \<open>while current in came_from: path.append(current); current = came_from[current]\<close>.
  \<open>current\<close> becomes \<open>None\<close> after the start, and \<open>None\<close> is never a key.
  The loop does not end on a cyclic predecessor map: then the result is \<open>None\<close>.
\<close>

partial_function (option) walk_back ::
    "(node \<rightharpoonup> node option) \<Rightarrow> node option \<Rightarrow> node list \<Rightarrow> node list option" where
  "walk_back cf current path =
     (case current of
        None \<Rightarrow> Some path
      | Some c \<Rightarrow> (case cf c of
                    None \<Rightarrow> Some path
                  | Some p \<Rightarrow> walk_back cf p (path @ [c])))"

definition reconstruct_path :: "app \<Rightarrow> app option" where
  "reconstruct_path app = do {
     path \<leftarrow> walk_back (came_from app) (Some (target app)) [];
     mark_path (app\<lparr>final_path := rev (path @ [start app])\<rparr>) }"

definition reconstruct_bidirectional_path :: "app \<Rightarrow> app option" where
  "reconstruct_bidirectional_path app = do {
     forward_path \<leftarrow> walk_back (came_from_forward app) (meeting_point app) [];
     backward_path \<leftarrow>
       (case meeting_point app of
          None \<Rightarrow> Some []
        | Some m \<Rightarrow> (case came_from_backward app m of
                      Some (Some p) \<Rightarrow> do {
                        path \<leftarrow> walk_back (came_from_backward app) (Some p) [];
                        Some (path @ [target app]) }
                    | _ \<Rightarrow> Some []));
     mark_path (app\<lparr>final_path := rev (forward_path @ [start app]) @ backward_path\<rparr>) }"

section \<open>The lifecycle around a run (app.py, grid.py)\<close>

definition create_cell_states :: "int \<Rightarrow> int \<Rightarrow> CellState list list" where
  "create_cell_states r c = replicate (nat r) (replicate (nat c) NONE)"

definition clear_search :: "app \<Rightarrow> app" where
  "clear_search app = app\<lparr>
     frontier := [], frontier_heap := [], frontier_depth := [],
     explored := {}, came_from := Map.empty, final_path := [],
     search_complete := False, searching := False, step_count := 0,
     cost_so_far := Map.empty, current_depth_limit := 0,
     frontier_forward := [], frontier_backward := [],
     explored_forward := {}, explored_backward := {},
     came_from_forward := Map.empty, came_from_backward := Map.empty,
     meeting_point := None\<rparr>"

definition start_search :: "app \<Rightarrow> app option" where
  "start_search app =
     (if searching app then Some app
      else do {
        let app = clear_search app;
        let app = app\<lparr>cell_states := create_cell_states (rows app) (cols app), searching := True\<rparr>;
        app \<leftarrow> (case selected_algorithm app of
            BFS \<Rightarrow> paint (app\<lparr>frontier := [start app], came_from := [start app \<mapsto> None]\<rparr>)
                     (start app) FRONTIER
          | DFS \<Rightarrow> paint (app\<lparr>frontier := [start app], came_from := [start app \<mapsto> None]\<rparr>)
                     (start app) FRONTIER
          | UCS \<Rightarrow> paint (app\<lparr>frontier_heap := [(0, start app)], came_from := [start app \<mapsto> None],
                       cost_so_far := [start app \<mapsto> 0]\<rparr>) (start app) FRONTIER
          | DLS \<Rightarrow> paint (app\<lparr>frontier_depth := [(start app, 0)], came_from := [start app \<mapsto> None]\<rparr>)
                     (start app) FRONTIER
          | IDDFS \<Rightarrow> paint (app\<lparr>current_depth_limit := 0, frontier_depth := [(start app, 0)],
                       came_from := [start app \<mapsto> None]\<rparr>) (start app) FRONTIER
          | Bidirectional \<Rightarrow> do {
              app \<leftarrow> paint (app\<lparr>frontier_forward := [start app], frontier_backward := [target app],
                       came_from_forward := [start app \<mapsto> None],
                       came_from_backward := [target app \<mapsto> None]\<rparr>) (start app) FRONTIER;
              paint app (target app) FRONTIER2 });
        Some (app\<lparr>status_message := SEARCHING\<rparr>) })"

definition finish_search :: "app \<Rightarrow> bool \<Rightarrow> app" where
  "finish_search app found = app\<lparr>
     search_complete := True, searching := False,
     status_message :=
       (if found then
          PATH_FOUND (step_count app)
            (if selected_algorithm app = Bidirectional
             then card (explored_forward app) + card (explored_backward app)
             else card (explored app))
            (length (final_path app))
        else NO_PATH (step_count app))\<rparr>"

section \<open>The step functions (algorithms.py)\<close>

subsection \<open>Breadth-first search\<close>

definition bfs_visit :: "node \<Rightarrow> node \<Rightarrow> app \<Rightarrow> app option" where
  "bfs_visit current neighbor app =
     (if neighbor \<notin> explored app \<and> neighbor \<notin> set (frontier app) then do {
        let app = app\<lparr>frontier := frontier app @ [neighbor],
                      came_from := (came_from app)(neighbor \<mapsto> Some current)\<rparr>;
        if neighbor \<noteq> target app then paint app neighbor FRONTIER else Some app }
      else Some app)"

definition bfs_step :: "app \<Rightarrow> app option" where
  "bfs_step app =
     (case frontier app of
        [] \<Rightarrow> Some (finish_search app False)
      | current # rest \<Rightarrow> do {
          let app = app\<lparr>frontier := rest, explored := insert current (explored app)\<rparr>;
          app \<leftarrow> (if current \<noteq> start app \<and> current \<noteq> target app
                  then paint app current EXPLORED else Some app);
          if current = target app then do {
            app \<leftarrow> reconstruct_path app;
            Some (finish_search app True) }
          else do {
            neighbors \<leftarrow> get_neighbors (grid app) current (rows app) (cols app);
            app \<leftarrow> for_each (bfs_visit current) neighbors app;
            Some (app\<lparr>step_count := step_count app + 1\<rparr>) } })"

subsection \<open>Depth-first search\<close>

definition dfs_visit :: "node \<Rightarrow> node \<Rightarrow> app \<Rightarrow> app option" where
  "dfs_visit current neighbor app =
     (if neighbor \<notin> explored app then
        (if neighbor \<notin> set (frontier app) then do {
           let app = app\<lparr>frontier := frontier app @ [neighbor]\<rparr>;
           let app = (if came_from app neighbor = None
                      then app\<lparr>came_from := (came_from app)(neighbor \<mapsto> Some current)\<rparr>
                      else app);
           if neighbor \<noteq> target app then paint app neighbor FRONTIER else Some app }
         else Some app)
      else Some app)"

definition dfs_step :: "app \<Rightarrow> app option" where
  "dfs_step app =
     (if frontier app = [] then Some (finish_search app False)
      else do {
        let current = last (frontier app);
        let app = app\<lparr>frontier := butlast (frontier app)\<rparr>;
        if current \<in> explored app then Some app
        else do {
          let app = app\<lparr>explored := insert current (explored app)\<rparr>;
          app \<leftarrow> (if current \<noteq> start app \<and> current \<noteq> target app
                  then paint app current EXPLORED else Some app);
          if current = target app then do {
            app \<leftarrow> reconstruct_path app;
            Some (finish_search app True) }
          else do {
            neighbors \<leftarrow> get_neighbors (grid app) current (rows app) (cols app);
            app \<leftarrow> for_each (dfs_visit current) (rev neighbors) app;
            Some (app\<lparr>step_count := step_count app + 1\<rparr>) } } })"

subsection \<open>Uniform-cost search\<close>

text \<open>
  \<open>heapq\<close> keeps the list as a binary heap; \<open>heappop\<close> returns its least entry.
  Entries are (cost, node) tuples, which Python compares lexicographically, a total
  order, so the entry popped does not depend on the layout of the heap. The model
  keeps the entries in a plain list: \<open>heappush\<close> appends, \<open>heappop\<close> takes the least
  entry out and raises on the empty list.
\<close>

definition heappush :: "'a list \<Rightarrow> 'a \<Rightarrow> 'a list" where
  "heappush h x = h @ [x]"

fun heappop :: "('a::linorder) list \<Rightarrow> ('a \<times> 'a list) option" where
  "heappop [] = None"
| "heappop (x # xs) = (let m = fold min xs x in Some (m, remove1 m (x # xs)))"

definition ucs_visit :: "node \<Rightarrow> node \<Rightarrow> app \<Rightarrow> app option" where
  "ucs_visit current neighbor app =
     (if neighbor \<notin> explored app then do {
        cost_current \<leftarrow> cost_so_far app current;
        let new_cost = cost_current + get_move_cost current neighbor;
        if (case cost_so_far app neighbor of None \<Rightarrow> True | Some old \<Rightarrow> new_cost < old) then do {
          let app = app\<lparr>cost_so_far := (cost_so_far app)(neighbor \<mapsto> new_cost),
                        frontier_heap := heappush (frontier_heap app) (new_cost, neighbor),
                        came_from := (came_from app)(neighbor \<mapsto> Some current)\<rparr>;
          if neighbor \<noteq> target app then paint app neighbor FRONTIER else Some app }
        else Some app }
      else Some app)"

definition ucs_step :: "app \<Rightarrow> app option" where
  "ucs_step app =
     (if frontier_heap app = [] then Some (finish_search app False)
      else do {
        (entry, rest) \<leftarrow> heappop (frontier_heap app);
        let current = snd entry;
        let app = app\<lparr>frontier_heap := rest\<rparr>;
        if current \<in> explored app then Some app
        else do {
          let app = app\<lparr>explored := insert current (explored app)\<rparr>;
          app \<leftarrow> (if current \<noteq> start app \<and> current \<noteq> target app
                  then paint app current EXPLORED else Some app);
          if current = target app then do {
            app \<leftarrow> reconstruct_path app;
            Some (finish_search app True) }
          else do {
            neighbors \<leftarrow> get_neighbors (grid app) current (rows app) (cols app);
            app \<leftarrow> for_each (ucs_visit current) neighbors app;
            Some (app\<lparr>step_count := step_count app + 1\<rparr>) } } })"

subsection \<open>Depth-limited and iterative-deepening search\<close>

text \<open>The body of the neighbor loop, which \<open>dls_step\<close> and \<open>iddfs_step\<close> share word for word.\<close>

definition dls_visit :: "node \<Rightarrow> int \<Rightarrow> node \<Rightarrow> app \<Rightarrow> app option" where
  "dls_visit current depth neighbor app =
     (if neighbor \<notin> explored app then do {
        let app = app\<lparr>frontier_depth := frontier_depth app @ [(neighbor, depth + 1)]\<rparr>;
        let app = (if came_from app neighbor = None
                   then app\<lparr>came_from := (came_from app)(neighbor \<mapsto> Some current)\<rparr>
                   else app);
        if neighbor \<noteq> target app then paint app neighbor FRONTIER else Some app }
      else Some app)"

definition dls_step :: "app \<Rightarrow> app option" where
  "dls_step app =
     (if frontier_depth app = [] then Some (finish_search app False)
      else do {
        let (current, depth) = last (frontier_depth app);
        let app = app\<lparr>frontier_depth := butlast (frontier_depth app)\<rparr>;
        if current \<in> explored app then Some app
        else do {
          let app = app\<lparr>explored := insert current (explored app)\<rparr>;
          app \<leftarrow> (if current \<noteq> start app \<and> current \<noteq> target app
                  then paint app current EXPLORED else Some app);
          if current = target app then do {
            app \<leftarrow> reconstruct_path app;
            Some (finish_search app True) }
          else do {
            app \<leftarrow> (if depth < depth_limit app then do {
                      neighbors \<leftarrow> get_neighbors (grid app) current (rows app) (cols app);
                      for_each (dls_visit current depth) (rev neighbors) app }
                    else Some app);
            Some (app\<lparr>step_count := step_count app + 1\<rparr>) } } })"

definition iddfs_step :: "app \<Rightarrow> app option" where
  "iddfs_step app =
     (if frontier_depth app = [] then do {
        let app = app\<lparr>current_depth_limit := current_depth_limit app + 1\<rparr>;
        if current_depth_limit app > 50 then Some (finish_search app False)
        else paint (app\<lparr>explored := {}, frontier_depth := [(start app, 0)],
                        came_from := [start app \<mapsto> None],
                        cell_states := create_cell_states (rows app) (cols app)\<rparr>)
               (start app) FRONTIER }
      else do {
        let (current, depth) = last (frontier_depth app);
        let app = app\<lparr>frontier_depth := butlast (frontier_depth app)\<rparr>;
        if current \<in> explored app then Some app
        else do {
          let app = app\<lparr>explored := insert current (explored app)\<rparr>;
          app \<leftarrow> (if current \<noteq> start app \<and> current \<noteq> target app
                  then paint app current EXPLORED else Some app);
          if current = target app then do {
            app \<leftarrow> reconstruct_path app;
            Some (finish_search app True) }
          else do {
            app \<leftarrow> (if depth < current_depth_limit app then do {
                      neighbors \<leftarrow> get_neighbors (grid app) current (rows app) (cols app);
                      for_each (dls_visit current depth) (rev neighbors) app }
                    else Some app);
            Some (app\<lparr>step_count := step_count app + 1\<rparr>) } } })"

subsection \<open>Bidirectional search\<close>

definition forward_visit :: "node \<Rightarrow> node \<Rightarrow> app \<Rightarrow> app option" where
  "forward_visit current neighbor app =
     (if neighbor \<notin> explored_forward app \<and> neighbor \<notin> set (frontier_forward app) then do {
        let app = app\<lparr>frontier_forward := frontier_forward app @ [neighbor],
                      came_from_forward := (came_from_forward app)(neighbor \<mapsto> Some current)\<rparr>;
        if neighbor \<noteq> target app then paint app neighbor FRONTIER else Some app }
      else Some app)"

definition backward_visit :: "node \<Rightarrow> node \<Rightarrow> app \<Rightarrow> app option" where
  "backward_visit current neighbor app =
     (if neighbor \<notin> explored_backward app \<and> neighbor \<notin> set (frontier_backward app) then do {
        let app = app\<lparr>frontier_backward := frontier_backward app @ [neighbor],
                      came_from_backward := (came_from_backward app)(neighbor \<mapsto> Some current)\<rparr>;
        if neighbor \<noteq> start app then paint app neighbor FRONTIER2 else Some app }
      else Some app)"

definition bidirectional_step :: "app \<Rightarrow> app option" where
  "bidirectional_step app =
     (if frontier_forward app = [] \<and> frontier_backward app = [] then Some (finish_search app False)
      else if step_count app mod 2 = 0 \<and> frontier_forward app \<noteq> [] then do {
        let current = hd (frontier_forward app);
        let app = app\<lparr>frontier_forward := tl (frontier_forward app),
                      explored_forward := insert current (explored_forward app)\<rparr>;
        app \<leftarrow> (if current \<noteq> start app then paint app current EXPLORED else Some app);
        if current \<in> explored_backward app then do {
          app \<leftarrow> reconstruct_bidirectional_path (app\<lparr>meeting_point := Some current\<rparr>);
          Some (finish_search app True) }
        else do {
          neighbors \<leftarrow> get_neighbors (grid app) current (rows app) (cols app);
          app \<leftarrow> for_each (forward_visit current) neighbors app;
          Some (app\<lparr>step_count := step_count app + 1\<rparr>) } }
      else if frontier_backward app \<noteq> [] then do {
        let current = hd (frontier_backward app);
        let app = app\<lparr>frontier_backward := tl (frontier_backward app),
                      explored_backward := insert current (explored_backward app)\<rparr>;
        app \<leftarrow> (if current \<noteq> target app then paint app current EXPLORED2 else Some app);
        if current \<in> explored_forward app then do {
          app \<leftarrow> reconstruct_bidirectional_path (app\<lparr>meeting_point := Some current\<rparr>);
          Some (finish_search app True) }
        else do {
          neighbors \<leftarrow> get_neighbors (grid app) current (rows app) (cols app);
          app \<leftarrow> for_each (backward_visit current) neighbors app;
          Some (app\<lparr>step_count := step_count app + 1\<rparr>) } }
      else Some (app\<lparr>step_count := step_count app + 1\<rparr>))"

subsection \<open>Dispatch and the driver\<close>

definition algorithm_step :: "app \<Rightarrow> app option" where
  "algorithm_step app =
     (case selected_algorithm app of
        BFS \<Rightarrow> bfs_step app
      | DFS \<Rightarrow> dfs_step app
      | UCS \<Rightarrow> ucs_step app
      | DLS \<Rightarrow> dls_step app
      | IDDFS \<Rightarrow> iddfs_step app
      | Bidirectional \<Rightarrow> bidirectional_step app)"

text \<open>
  \<open>update\<close> is one tick of the game loop: it steps the selected algorithm while a
  search is running (the pacing delay only decides when the tick happens).
  \<open>ticks n\<close> is \<open>n\<close> ticks in a row.
\<close>

definition update :: "app \<Rightarrow> app option" where
  "update app = (if searching app then algorithm_step app else Some app)"

fun ticks :: "nat \<Rightarrow> app \<Rightarrow> app option" where
  "ticks 0 app = Some app"
| "ticks (Suc n) app = (case update app of None \<Rightarrow> None | Some app' \<Rightarrow> ticks n app')"

text \<open>
  The application as \<open>__init__\<close> leaves it, after the user has edited the grid, placed
  start and target and selected an algorithm: no search state, depth limit 20.
\<close>

definition idle_app :: "int \<Rightarrow> int \<Rightarrow> CellType list list \<Rightarrow> node \<Rightarrow> node \<Rightarrow> algorithm \<Rightarrow> app" where
  "idle_app r c g s t algo = \<lparr>
     rows = r, cols = c, grid = g, cell_states = create_cell_states r c,
     start = s, target = t, selected_algorithm = algo,
     frontier = [], frontier_heap = [], frontier_depth = [],
     explored = {}, came_from = Map.empty, final_path = [],
     search_complete = False, searching = False, step_count = 0,
     depth_limit = 20, current_depth_limit = 0, cost_so_far = Map.empty,
     frontier_forward = [], frontier_backward = [],
     explored_forward = {}, explored_backward = {},
     came_from_forward = Map.empty, came_from_backward = Map.empty,
     meeting_point = None, status_message = SEARCHING\<rparr>"

text \<open>A search from its start: \<open>start_search\<close>, then \<open>n\<close> ticks.\<close>

definition search :: "nat \<Rightarrow> app \<Rightarrow> app option" where
  "search n app = do { app' \<leftarrow> start_search app; ticks n app' }"

declare walk_back.simps [code]

section \<open>Vocabulary of the specification\<close>

text \<open>A node inside a grid of \<open>r\<close> rows and \<open>c\<close> columns; a list of lists of that shape.\<close>

definition in_bounds :: "int \<Rightarrow> int \<Rightarrow> node \<Rightarrow> bool" where
  "in_bounds r c n = (0 \<le> fst n \<and> fst n < r \<and> 0 \<le> snd n \<and> snd n < c)"

definition matrix_ok :: "'a list list \<Rightarrow> int \<Rightarrow> int \<Rightarrow> bool" where
  "matrix_ok m r c = (int (length m) = r \<and> list_all (\<lambda>line. int (length line) = c) m)"

text \<open>
  The state in which the Run button starts a search: no search is running, the grid has
  \<open>rows\<close> times \<open>cols\<close> cells, start and target are cells of it, and the target cell
  is not a wall (the editor never puts a wall on the start or the target).
\<close>

definition ready :: "app \<Rightarrow> bool" where
  "ready app =
     (\<not> searching app \<and> matrix_ok (grid app) (rows app) (cols app) \<and>
      in_bounds (rows app) (cols app) (start app) \<and>
      in_bounds (rows app) (cols app) (target app) \<and>
      cell_at (grid app) (fst (target app)) (snd (target app)) \<noteq> Some WALL)"

text \<open>The candidate a movement leads to, and the cells a move may enter.\<close>

definition shift :: "node \<Rightarrow> int \<times> int \<Rightarrow> node" where
  "shift node d = (fst node + fst d, snd node + snd d)"

definition open_cell :: "CellType list list \<Rightarrow> int \<Rightarrow> int \<Rightarrow> node \<Rightarrow> bool" where
  "open_cell g r c n =
     (in_bounds r c n \<and> (case cell_at g (fst n) (snd n) of None \<Rightarrow> False | Some k \<Rightarrow> k \<noteq> WALL))"

text \<open>
  A valid move of the six-direction neighbor model, a wall-avoiding path from \<open>a\<close> to
  \<open>b\<close>, the hop count of a node sequence and its total cost.
\<close>

definition is_move :: "CellType list list \<Rightarrow> int \<Rightarrow> int \<Rightarrow> node \<Rightarrow> node \<Rightarrow> bool" where
  "is_move g r c a b = (case get_neighbors g a r c of None \<Rightarrow> False | Some ns \<Rightarrow> b \<in> set ns)"

definition is_path :: "CellType list list \<Rightarrow> int \<Rightarrow> int \<Rightarrow> node \<Rightarrow> node \<Rightarrow> node list \<Rightarrow> bool" where
  "is_path g r c a b p = (p \<noteq> [] \<and> hd p = a \<and> last p = b \<and> successively (is_move g r c) p)"

definition hops :: "node list \<Rightarrow> nat" where
  "hops p = length p - 1"

fun path_cost :: "node list \<Rightarrow> real" where
  "path_cost (a # b # p) = get_move_cost a b + path_cost (b # p)"
| "path_cost p = 0"

text \<open>The overlay after a successful write, for the proofs.\<close>

definition put :: "'a list list \<Rightarrow> node \<Rightarrow> 'a \<Rightarrow> 'a list list" where
  "put m n v = m[nat (fst n) := (m ! nat (fst n))[nat (snd n) := v]]"

text \<open>What \<open>get_neighbors\<close> returns on a well-formed grid.\<close>

definition neighbors_of :: "app \<Rightarrow> node \<Rightarrow> node list" where
  "neighbors_of app n =
     filter (open_cell (grid app) (rows app) (cols app)) (map (shift n) movements)"

text \<open>The test of \<open>ucs_step\<close> for relaxing the neighbor \<open>n\<close> of \<open>cur\<close>.\<close>

definition improves :: "app \<Rightarrow> node \<Rightarrow> node \<Rightarrow> bool" where
  "improves app cur n =
     (n \<notin> explored app \<and>
      (case cost_so_far app cur of
         None \<Rightarrow> False
       | Some c \<Rightarrow> (case cost_so_far app n of
                     None \<Rightarrow> True
                   | Some old \<Rightarrow> c + get_move_cost cur n < old)))"

text \<open>A wall-avoiding path leads from \<open>a\<close> to \<open>b\<close>.\<close>

definition connected :: "CellType list list \<Rightarrow> int \<Rightarrow> int \<Rightarrow> node \<Rightarrow> node \<Rightarrow> bool" where
  "connected g r c a b = (\<exists>p. is_path g r c a b p)"

text \<open>The frontier, or both frontiers, of the selected algorithm are empty.\<close>

definition frontier_empty :: "app \<Rightarrow> bool" where
  "frontier_empty app =
     (case selected_algorithm app of
        BFS \<Rightarrow> frontier app = []
      | DFS \<Rightarrow> frontier app = []
      | UCS \<Rightarrow> frontier_heap app = []
      | DLS \<Rightarrow> frontier_depth app = []
      | IDDFS \<Rightarrow> frontier_depth app = []
      | Bidirectional \<Rightarrow> frontier_forward app = [] \<and> frontier_backward app = [])"

text \<open>The terminal outcome "no path": the search is complete and the status says so.\<close>

definition failed :: "app \<Rightarrow> bool" where
  "failed app =
     (search_complete app \<and> \<not> searching app \<and> status_message app = NO_PATH (step_count app)
      \<and> frontier_empty app)"

text \<open>
  What every step keeps while a search runs: the grid and the overlay have the shape
  \<open>rows\<close> times \<open>cols\<close>, start and target are cells, the target is not a wall.
\<close>

definition frame :: "app \<Rightarrow> bool" where
  "frame app =
     (searching app \<and> matrix_ok (grid app) (rows app) (cols app) \<and>
      matrix_ok (cell_states app) (rows app) (cols app) \<and>
      in_bounds (rows app) (cols app) (start app) \<and>
      open_cell (grid app) (rows app) (cols app) (target app))"

text \<open>A cell that a wall-avoiding path from the start leads to.\<close>

definition reached :: "app \<Rightarrow> node \<Rightarrow> bool" where
  "reached app n =
     (in_bounds (rows app) (cols app) n \<and>
      connected (grid app) (rows app) (cols app) (start app) n)"

text \<open>The target cannot be reached from the start.\<close>

definition cut_off :: "app \<Rightarrow> bool" where
  "cut_off app = (\<not> connected (grid app) (rows app) (cols app) (start app) (target app))"

text \<open>The cells that a search has neither expanded nor queued.\<close>

definition unseen :: "int \<Rightarrow> int \<Rightarrow> node set \<Rightarrow> node list \<Rightarrow> node set" where
  "unseen r c E F = {n. in_bounds r c n \<and> n \<notin> E \<and> n \<notin> set F}"

text \<open>The invariant of a breadth-first search for a target that is cut off.\<close>

definition bfs_inv :: "app \<Rightarrow> bool" where
  "bfs_inv app =
     (frame app \<and> cut_off app \<and> selected_algorithm app = BFS \<and>
      (\<forall>n\<in>set (frontier app). reached app n))"

definition bfs_rel :: "(app \<times> app) set" where
  "bfs_rel = measures [\<lambda>s. card (unseen (rows s) (cols s) (explored s) (frontier s)),
                       \<lambda>s. length (frontier s)]"

section \<open>Indexing inside the grid\<close>

lemma py_index_in: "0 \<le> i \<Longrightarrow> i < int (length xs) \<Longrightarrow> py_index xs i = Some (nat i)"
  by (simp add: py_index_def)

lemma cell_at_in:
  "matrix_ok m r c \<Longrightarrow> in_bounds r c n \<Longrightarrow>
   cell_at m (fst n) (snd n) = Some (m ! nat (fst n) ! nat (snd n))"
  by (auto simp: matrix_ok_def in_bounds_def cell_at_def py_get_def py_index_in list_all_length)

lemma set_cell_in:
  "matrix_ok m r c \<Longrightarrow> in_bounds r c n \<Longrightarrow> set_cell m n v = Some (put m n v)"
  by (auto simp: matrix_ok_def in_bounds_def set_cell_def py_get_def py_set_def py_index_in
      list_all_length put_def)

lemma matrix_ok_put: "matrix_ok m r c \<Longrightarrow> matrix_ok (put m n v) r c"
  unfolding put_def
  by (cases "nat (fst n) < length m") (auto simp: matrix_ok_def list_all_length nth_list_update)

lemma matrix_ok_create: "0 \<le> r \<Longrightarrow> 0 \<le> c \<Longrightarrow> matrix_ok (create_cell_states r c) r c"
  by (simp add: matrix_ok_def create_cell_states_def list_all_length)

lemma in_bounds_nonneg: "in_bounds r c n \<Longrightarrow> 0 \<le> r \<and> 0 \<le> c"
  by (auto simp: in_bounds_def)

lemma paint_in:
  "matrix_ok (cell_states app) r c \<Longrightarrow> in_bounds r c n \<Longrightarrow>
   paint app n v = Some (app\<lparr>cell_states := put (cell_states app) n v\<rparr>)"
  by (simp add: paint_def set_cell_in)

section \<open>The neighbor model\<close>

lemma for_each_try_move:
  "for_each (try_move g node r c) ds acc = Some ns \<Longrightarrow>
   ns = acc @ filter (open_cell g r c) (map (shift node) ds)"
proof (induction ds arbitrary: acc)
  case Nil
  then show ?case by simp
next
  case (Cons d ds)
  from Cons.prems obtain acc' where a: "try_move g node r c d acc = Some acc'"
    and b: "for_each (try_move g node r c) ds acc' = Some ns"
    by (auto split: option.splits)
  from a have "acc' = acc @ filter (open_cell g r c) [shift node d]"
    by (auto simp: try_move_def open_cell_def in_bounds_def shift_def Let_def
        split: if_splits bind_splits)
  with Cons.IH[OF b] show ?case by simp
qed

lemma get_neighbors_Some:
  "get_neighbors g node r c = Some ns \<Longrightarrow>
   ns = filter (open_cell g r c) (map (shift node) movements)"
  unfolding get_neighbors_def by (drule for_each_try_move) simp

text \<open>
  C8, as the code has it. Every neighbor that \<open>get_neighbors\<close> returns lies one of the
  six movements away, and \<open>get_move_cost\<close> gives the move the cost 1.0 when it is
  axis-aligned and the constant 1.414 when it is one of the two diagonals (1, 1) and
  (-1, -1).
\<close>

theorem move_cost_of_neighbor:
  assumes "get_neighbors g node r c = Some ns" and "n \<in> set ns"
  shows "(fst n - fst node, snd n - snd node) \<in> set movements \<and>
    get_move_cost node n =
      (if (fst n - fst node, snd n - snd node) = (1, 1) \<or>
          (fst n - fst node, snd n - snd node) = (-1, -1)
       then 1.414 else 1.0)"
proof -
  from get_neighbors_Some[OF assms(1)] assms(2)
  obtain d where "d \<in> set movements" "n = shift node d" by auto
  then show ?thesis
    by (auto simp: movements_def shift_def get_move_cost_def)
qed

text \<open>
  C8, witness: on the 2 by 2 grid the diagonal neighbor (1, 1) of (0, 0) costs 1.414.
\<close>

theorem move_cost_of_neighbor_witness:
  "get_neighbors [[START, EMPTY], [EMPTY, TARGET]] (0, 0) 2 2 = Some [(0, 1), (1, 0), (1, 1)]
   \<and> get_move_cost (0, 0) (1, 1) = 1.414"
proof -
  have n: "get_neighbors [[START, EMPTY], [EMPTY, TARGET]] (0, 0) 2 2
      = Some [(0, 1), (1, 0), (1, 1)]"
    by code_simp
  from move_cost_of_neighbor[OF n, of "(1, 1)"] n show ?thesis by simp
qed

text \<open>
  C8, counterexample to the claim as stated: the cost of the diagonal move from (0, 0)
  to its neighbor (1, 1) is not the square root of 2.
\<close>

theorem move_cost_not_sqrt2:
  "get_neighbors [[START, EMPTY], [EMPTY, TARGET]] (0, 0) 2 2 = Some [(0, 1), (1, 0), (1, 1)]
   \<and> get_move_cost (0, 0) (1, 1) \<noteq> sqrt 2"
proof -
  have "(1.414::real) \<noteq> sqrt 2"
  proof
    assume a: "(1.414::real) = sqrt 2"
    have "(1.414::real) * 1.414 = sqrt 2 * sqrt 2" by (simp only: a)
    also have "\<dots> = 2" by simp
    finally show False by simp
  qed
  moreover have "get_move_cost (0, 0) (1, 1) = 1.414" by (simp add: get_move_cost_def)
  moreover have "get_neighbors [[START, EMPTY], [EMPTY, TARGET]] (0, 0) 2 2
      = Some [(0, 1), (1, 0), (1, 1)]"
    by code_simp
  ultimately show ?thesis by simp
qed

section \<open>Path reconstruction on concrete runs\<close>

text \<open>
  C1, at a failing input. On the 1 by 2 grid with the start at (0, 0) and the target at
  (0, 1), breadth-first search succeeds on its second tick and reports the path
  (0, 0), (0, 0), (0, 1): the predecessor walk takes the start, a key of \<open>came_from\<close>,
  and \<open>reconstruct_path\<close> appends the start once more. The status reports a path of
  length 3. The reported sequence has two hops; the wall-avoiding path (0, 0), (0, 1)
  has one.
\<close>

theorem bfs_reports_start_twice:
  "map_option final_path (search 2 (idle_app 1 2 [[START, TARGET]] (0, 0) (0, 1) BFS))
     = Some [(0, 0), (0, 0), (0, 1)]
   \<and> map_option status_message (search 2 (idle_app 1 2 [[START, TARGET]] (0, 0) (0, 1) BFS))
     = Some (PATH_FOUND 1 2 3)
   \<and> is_path [[START, TARGET]] 1 2 (0, 0) (0, 1) [(0, 0), (0, 1)]
   \<and> hops [(0, 0), (0, 1)] = 1
   \<and> hops [(0, 0), (0, 0), (0, 1)] = 2"
  by code_simp

text \<open>
  C4, at a failing input. On the 1 by 3 grid with the start at (0, 0) and the target at
  (0, 2), breadth-first search succeeds on its third tick. The reconstructed sequence
  holds the start twice, so it is not the chain from start to target with each node
  once; the interior node (0, 1), and only it, is marked \<open>PATH\<close>.
\<close>

theorem reconstructed_path_repeats_start:
  "map_option final_path
     (search 3 (idle_app 1 3 [[START, EMPTY, TARGET]] (0, 0) (0, 2) BFS))
     = Some [(0, 0), (0, 0), (0, 1), (0, 2)]
   \<and> map_option (\<lambda>a. distinct (final_path a))
     (search 3 (idle_app 1 3 [[START, EMPTY, TARGET]] (0, 0) (0, 2) BFS)) = Some False
   \<and> map_option cell_states
     (search 3 (idle_app 1 3 [[START, EMPTY, TARGET]] (0, 0) (0, 2) BFS))
     = Some [[FRONTIER, PATH, NONE]]"
  by code_simp

text \<open>
  C5, at a failing input. On the same 1 by 3 grid bidirectional search meets at (0, 1)
  on its fourth tick. The concatenated path holds the start twice and the target twice,
  and the step from (0, 0) to (0, 0) is not a neighbor move.
\<close>

theorem bidirectional_path_repeats_ends:
  "map_option final_path
     (search 4 (idle_app 1 3 [[START, EMPTY, TARGET]] (0, 0) (0, 2) Bidirectional))
     = Some [(0, 0), (0, 0), (0, 1), (0, 2), (0, 2)]
   \<and> map_option meeting_point
     (search 4 (idle_app 1 3 [[START, EMPTY, TARGET]] (0, 0) (0, 2) Bidirectional))
     = Some (Some (0, 1))
   \<and> map_option (\<lambda>a. distinct (final_path a))
     (search 4 (idle_app 1 3 [[START, EMPTY, TARGET]] (0, 0) (0, 2) Bidirectional)) = Some False
   \<and> map_option (\<lambda>a. successively (is_move (grid a) (rows a) (cols a)) (final_path a))
     (search 4 (idle_app 1 3 [[START, EMPTY, TARGET]] (0, 0) (0, 2) Bidirectional)) = Some False
   \<and> is_move [[START, EMPTY, TARGET]] 1 3 (0, 0) (0, 0) = False"
  by code_simp

section \<open>Bidirectional alternation on a concrete run\<close>

text \<open>
  C7, at a failing input. On the 1 by 5 grid START, EMPTY, EMPTY, WALL, TARGET the
  backward frontier is empty after three ticks, the forward frontier holds (0, 2) and
  the step counter is 3, an odd number. The fourth tick expands nothing: both frontiers
  and both visited sets are as before, only the step counter is 4. The forward side
  expands (0, 2) on the fifth tick.
\<close>

theorem bidirectional_tick_without_expansion:
  "map_option (\<lambda>a. (searching a, step_count a, frontier_forward a, frontier_backward a,
        explored_forward a, explored_backward a))
     (search 3 (idle_app 1 5 [[START, EMPTY, EMPTY, WALL, TARGET]] (0, 0) (0, 4) Bidirectional))
     = Some (True, 3, [(0, 2)], [], {(0, 0), (0, 1)}, {(0, 4)})
   \<and> map_option (\<lambda>a. (searching a, step_count a, frontier_forward a, frontier_backward a,
        explored_forward a, explored_backward a))
     (search 4 (idle_app 1 5 [[START, EMPTY, EMPTY, WALL, TARGET]] (0, 0) (0, 4) Bidirectional))
     = Some (True, 4, [(0, 2)], [], {(0, 0), (0, 1)}, {(0, 4)})
   \<and> map_option (\<lambda>a. (searching a, step_count a, frontier_forward a, frontier_backward a,
        explored_forward a, explored_backward a))
     (search 5 (idle_app 1 5 [[START, EMPTY, EMPTY, WALL, TARGET]] (0, 0) (0, 4) Bidirectional))
     = Some (True, 5, [], [], {(0, 0), (0, 1), (0, 2)}, {(0, 4)})"
  by code_simp

lemma try_move_total:
  assumes "matrix_ok g r c"
  shows "try_move g node r c d acc = Some (acc @ filter (open_cell g r c) [shift node d])"
proof (cases "in_bounds r c (shift node d)")
  case True
  from cell_at_in[OF assms True] show ?thesis using True
    by (simp add: try_move_def open_cell_def shift_def in_bounds_def Let_def)
next
  case False
  then show ?thesis
    by (auto simp: try_move_def open_cell_def shift_def in_bounds_def Let_def)
qed

lemma for_each_try_move_total:
  "matrix_ok g r c \<Longrightarrow>
   for_each (try_move g node r c) ds acc = Some (acc @ filter (open_cell g r c) (map (shift node) ds))"
  by (induction ds arbitrary: acc) (simp_all add: try_move_total)

lemma get_neighbors_total:
  "matrix_ok g r c \<Longrightarrow>
   get_neighbors g node r c = Some (filter (open_cell g r c) (map (shift node) movements))"
  by (simp add: get_neighbors_def for_each_try_move_total)

lemma distinct_candidates: "distinct (map (shift node) movements)"
  by (simp add: movements_def shift_def)

lemma neighbors_props:
  assumes "get_neighbors g node r c = Some ns"
  shows "distinct ns" and "\<forall>n\<in>set ns. in_bounds r c n" and "node \<notin> set ns"
    and "\<forall>n\<in>set ns. open_cell g r c n"
proof -
  note e = get_neighbors_Some[OF assms]
  show "distinct ns" unfolding e by (rule distinct_filter[OF distinct_candidates])
  show "\<forall>n\<in>set ns. in_bounds r c n" unfolding e by (auto simp: open_cell_def)
  show "node \<notin> set ns" unfolding e by (auto simp: movements_def shift_def prod_eq_iff)
  show "\<forall>n\<in>set ns. open_cell g r c n" unfolding e by auto
qed

lemma cell_put:
  assumes "matrix_ok m r c" and "in_bounds r c n" and "in_bounds r c k"
  shows "cell_at (put m n v) (fst k) (snd k) = (if k = n then Some v else cell_at m (fst k) (snd k))"
proof -
  have eq: "nat (fst k) = nat (fst n) \<and> nat (snd k) = nat (snd n) \<longleftrightarrow> k = n"
    using assms(2,3) by (auto simp: in_bounds_def prod_eq_iff)
  have rw: "nat (fst n) < length m" "nat (fst k) < length m"
    using assms by (auto simp: in_bounds_def matrix_ok_def)
  then have "int (length (m ! nat (fst n))) = c" "int (length (m ! nat (fst k))) = c"
    using assms(1) by (auto simp: matrix_ok_def list_all_length)
  then have cl: "nat (snd n) < length (m ! nat (fst n))" "nat (snd k) < length (m ! nat (fst k))"
    using assms(2,3) by (auto simp: in_bounds_def)
  have "put m n v ! nat (fst k) ! nat (snd k) = (if k = n then v else m ! nat (fst k) ! nat (snd k))"
  proof (cases "nat (fst k) = nat (fst n)")
    case True
    then show ?thesis using rw cl eq by (auto simp: put_def nth_list_update)
  next
    case False
    then show ?thesis using rw eq by (auto simp: put_def nth_list_update)
  qed
  then show ?thesis
    by (simp add: cell_at_in[OF matrix_ok_put[OF assms(1)] assms(3)] cell_at_in[OF assms(1,3)])
qed

section \<open>The neighbor loops of the breadth-first steps\<close>

lemma bfs_visit_eq:
  assumes "matrix_ok (cell_states app) r c" and "in_bounds r c n"
  shows "bfs_visit cur n app = Some (app\<lparr>
      frontier := (if n \<notin> explored app \<and> n \<notin> set (frontier app) then frontier app @ [n] else frontier app),
      came_from := (if n \<notin> explored app \<and> n \<notin> set (frontier app)
                    then (came_from app)(n \<mapsto> Some cur) else came_from app),
      cell_states := (if n \<notin> explored app \<and> n \<notin> set (frontier app) \<and> n \<noteq> target app
                      then put (cell_states app) n FRONTIER else cell_states app)\<rparr>)"
  using assms by (simp add: bfs_visit_def paint_in[where r=r and c=c] Let_def)

lemma bfs_loop:
  assumes "matrix_ok (cell_states app) r c" and "\<forall>n\<in>set ns. in_bounds r c n" and "distinct ns"
  shows "\<exists>C S. for_each (bfs_visit cur) ns app = Some (app\<lparr>
      frontier := frontier app @ filter (\<lambda>n. n \<notin> explored app \<and> n \<notin> set (frontier app)) ns,
      came_from := C, cell_states := S\<rparr>)
    \<and> (\<forall>k. C k = (if k \<in> set ns \<and> k \<notin> explored app \<and> k \<notin> set (frontier app)
                   then Some (Some cur) else came_from app k))
    \<and> matrix_ok S r c
    \<and> (\<forall>k. in_bounds r c k \<longrightarrow> cell_at S (fst k) (snd k) =
          (if k \<in> set ns \<and> k \<notin> explored app \<and> k \<notin> set (frontier app) \<and> k \<noteq> target app
           then Some FRONTIER else cell_at (cell_states app) (fst k) (snd k)))"
  using assms
proof (induction ns arbitrary: app)
  case Nil
  then show ?case
    by (intro exI[of _ "came_from app"] exI[of _ "cell_states app"]) simp
next
  case (Cons n ns)
  define app1 where "app1 = app\<lparr>
      frontier := (if n \<notin> explored app \<and> n \<notin> set (frontier app) then frontier app @ [n] else frontier app),
      came_from := (if n \<notin> explored app \<and> n \<notin> set (frontier app)
                    then (came_from app)(n \<mapsto> Some cur) else came_from app),
      cell_states := (if n \<notin> explored app \<and> n \<notin> set (frontier app) \<and> n \<noteq> target app
                      then put (cell_states app) n FRONTIER else cell_states app)\<rparr>"
  have nin: "n \<notin> set ns" "distinct ns" "\<forall>k\<in>set ns. in_bounds r c k" "in_bounds r c n"
    using Cons.prems by auto
  have v: "bfs_visit cur n app = Some app1"
    unfolding app1_def by (rule bfs_visit_eq[OF Cons.prems(1) nin(4)])
  have m1: "matrix_ok (cell_states app1) r c"
    using Cons.prems(1) by (simp add: app1_def matrix_ok_put)
  from Cons.IH[OF m1 nin(3) nin(2)] obtain C S where
    run: "for_each (bfs_visit cur) ns app1 = Some (app1\<lparr>
      frontier := frontier app1 @ filter (\<lambda>n. n \<notin> explored app1 \<and> n \<notin> set (frontier app1)) ns,
      came_from := C, cell_states := S\<rparr>)"
    and C: "\<And>k. C k = (if k \<in> set ns \<and> k \<notin> explored app1 \<and> k \<notin> set (frontier app1)
                   then Some (Some cur) else came_from app1 k)"
    and S: "matrix_ok S r c"
      "\<And>k. in_bounds r c k \<Longrightarrow> cell_at S (fst k) (snd k) =
          (if k \<in> set ns \<and> k \<notin> explored app1 \<and> k \<notin> set (frontier app1) \<and> k \<noteq> target app1
           then Some FRONTIER else cell_at (cell_states app1) (fst k) (snd k))"
    by blast
  have f: "frontier app1 @ filter (\<lambda>k. k \<notin> explored app1 \<and> k \<notin> set (frontier app1)) ns
         = frontier app @ filter (\<lambda>k. k \<notin> explored app \<and> k \<notin> set (frontier app)) (n # ns)"
    using nin(1) by (auto simp: app1_def intro!: filter_cong)
  have "for_each (bfs_visit cur) (n # ns) app = Some (app\<lparr>
      frontier := frontier app @ filter (\<lambda>k. k \<notin> explored app \<and> k \<notin> set (frontier app)) (n # ns),
      came_from := C, cell_states := S\<rparr>)"
    by (simp add: v run f) (simp add: app1_def)
  moreover have "\<forall>k. C k = (if k \<in> set (n # ns) \<and> k \<notin> explored app \<and> k \<notin> set (frontier app)
                   then Some (Some cur) else came_from app k)"
    using nin(1) by (auto simp: C app1_def)
  moreover have "\<forall>k. in_bounds r c k \<longrightarrow> cell_at S (fst k) (snd k) =
          (if k \<in> set (n # ns) \<and> k \<notin> explored app \<and> k \<notin> set (frontier app) \<and> k \<noteq> target app
           then Some FRONTIER else cell_at (cell_states app) (fst k) (snd k))"
  proof (intro allI impI)
    fix k assume kb: "in_bounds r c k"
    have p: "cell_at (put (cell_states app) n FRONTIER) (fst k) (snd k)
        = (if k = n then Some FRONTIER else cell_at (cell_states app) (fst k) (snd k))"
      by (rule cell_put[OF Cons.prems(1) nin(4) kb])
    show "cell_at S (fst k) (snd k) =
          (if k \<in> set (n # ns) \<and> k \<notin> explored app \<and> k \<notin> set (frontier app) \<and> k \<noteq> target app
           then Some FRONTIER else cell_at (cell_states app) (fst k) (snd k))"
      using nin(1) p S(2)[OF kb] by (cases "k = n") (auto simp: app1_def)
  qed
  ultimately show ?case using S(1) by blast
qed

lemma forward_visit_eq:
  assumes "matrix_ok (cell_states app) r c" and "in_bounds r c n"
  shows "forward_visit cur n app = Some (app\<lparr>
      frontier_forward := (if n \<notin> explored_forward app \<and> n \<notin> set (frontier_forward app) then frontier_forward app @ [n] else frontier_forward app),
      came_from_forward := (if n \<notin> explored_forward app \<and> n \<notin> set (frontier_forward app)
                    then (came_from_forward app)(n \<mapsto> Some cur) else came_from_forward app),
      cell_states := (if n \<notin> explored_forward app \<and> n \<notin> set (frontier_forward app) \<and> n \<noteq> target app
                      then put (cell_states app) n FRONTIER else cell_states app)\<rparr>)"
  using assms by (simp add: forward_visit_def paint_in[where r=r and c=c] Let_def)

lemma forward_loop:
  assumes "matrix_ok (cell_states app) r c" and "\<forall>n\<in>set ns. in_bounds r c n" and "distinct ns"
  shows "\<exists>C S. for_each (forward_visit cur) ns app = Some (app\<lparr>
      frontier_forward := frontier_forward app @ filter (\<lambda>n. n \<notin> explored_forward app \<and> n \<notin> set (frontier_forward app)) ns,
      came_from_forward := C, cell_states := S\<rparr>)
    \<and> (\<forall>k. C k = (if k \<in> set ns \<and> k \<notin> explored_forward app \<and> k \<notin> set (frontier_forward app)
                   then Some (Some cur) else came_from_forward app k))
    \<and> matrix_ok S r c
    \<and> (\<forall>k. in_bounds r c k \<longrightarrow> cell_at S (fst k) (snd k) =
          (if k \<in> set ns \<and> k \<notin> explored_forward app \<and> k \<notin> set (frontier_forward app) \<and> k \<noteq> target app
           then Some FRONTIER else cell_at (cell_states app) (fst k) (snd k)))"
  using assms
proof (induction ns arbitrary: app)
  case Nil
  then show ?case
    by (intro exI[of _ "came_from_forward app"] exI[of _ "cell_states app"]) simp
next
  case (Cons n ns)
  define app1 where "app1 = app\<lparr>
      frontier_forward := (if n \<notin> explored_forward app \<and> n \<notin> set (frontier_forward app) then frontier_forward app @ [n] else frontier_forward app),
      came_from_forward := (if n \<notin> explored_forward app \<and> n \<notin> set (frontier_forward app)
                    then (came_from_forward app)(n \<mapsto> Some cur) else came_from_forward app),
      cell_states := (if n \<notin> explored_forward app \<and> n \<notin> set (frontier_forward app) \<and> n \<noteq> target app
                      then put (cell_states app) n FRONTIER else cell_states app)\<rparr>"
  have nin: "n \<notin> set ns" "distinct ns" "\<forall>k\<in>set ns. in_bounds r c k" "in_bounds r c n"
    using Cons.prems by auto
  have v: "forward_visit cur n app = Some app1"
    unfolding app1_def by (rule forward_visit_eq[OF Cons.prems(1) nin(4)])
  have m1: "matrix_ok (cell_states app1) r c"
    using Cons.prems(1) by (simp add: app1_def matrix_ok_put)
  from Cons.IH[OF m1 nin(3) nin(2)] obtain C S where
    run: "for_each (forward_visit cur) ns app1 = Some (app1\<lparr>
      frontier_forward := frontier_forward app1 @ filter (\<lambda>n. n \<notin> explored_forward app1 \<and> n \<notin> set (frontier_forward app1)) ns,
      came_from_forward := C, cell_states := S\<rparr>)"
    and C: "\<And>k. C k = (if k \<in> set ns \<and> k \<notin> explored_forward app1 \<and> k \<notin> set (frontier_forward app1)
                   then Some (Some cur) else came_from_forward app1 k)"
    and S: "matrix_ok S r c"
      "\<And>k. in_bounds r c k \<Longrightarrow> cell_at S (fst k) (snd k) =
          (if k \<in> set ns \<and> k \<notin> explored_forward app1 \<and> k \<notin> set (frontier_forward app1) \<and> k \<noteq> target app1
           then Some FRONTIER else cell_at (cell_states app1) (fst k) (snd k))"
    by blast
  have f: "frontier_forward app1 @ filter (\<lambda>k. k \<notin> explored_forward app1 \<and> k \<notin> set (frontier_forward app1)) ns
         = frontier_forward app @ filter (\<lambda>k. k \<notin> explored_forward app \<and> k \<notin> set (frontier_forward app)) (n # ns)"
    using nin(1) by (auto simp: app1_def intro!: filter_cong)
  have "for_each (forward_visit cur) (n # ns) app = Some (app\<lparr>
      frontier_forward := frontier_forward app @ filter (\<lambda>k. k \<notin> explored_forward app \<and> k \<notin> set (frontier_forward app)) (n # ns),
      came_from_forward := C, cell_states := S\<rparr>)"
    by (simp add: v run f) (simp add: app1_def)
  moreover have "\<forall>k. C k = (if k \<in> set (n # ns) \<and> k \<notin> explored_forward app \<and> k \<notin> set (frontier_forward app)
                   then Some (Some cur) else came_from_forward app k)"
    using nin(1) by (auto simp: C app1_def)
  moreover have "\<forall>k. in_bounds r c k \<longrightarrow> cell_at S (fst k) (snd k) =
          (if k \<in> set (n # ns) \<and> k \<notin> explored_forward app \<and> k \<notin> set (frontier_forward app) \<and> k \<noteq> target app
           then Some FRONTIER else cell_at (cell_states app) (fst k) (snd k))"
  proof (intro allI impI)
    fix k assume kb: "in_bounds r c k"
    have p: "cell_at (put (cell_states app) n FRONTIER) (fst k) (snd k)
        = (if k = n then Some FRONTIER else cell_at (cell_states app) (fst k) (snd k))"
      by (rule cell_put[OF Cons.prems(1) nin(4) kb])
    show "cell_at S (fst k) (snd k) =
          (if k \<in> set (n # ns) \<and> k \<notin> explored_forward app \<and> k \<notin> set (frontier_forward app) \<and> k \<noteq> target app
           then Some FRONTIER else cell_at (cell_states app) (fst k) (snd k))"
      using nin(1) p S(2)[OF kb] by (cases "k = n") (auto simp: app1_def)
  qed
  ultimately show ?case using S(1) by blast
qed

lemma backward_visit_eq:
  assumes "matrix_ok (cell_states app) r c" and "in_bounds r c n"
  shows "backward_visit cur n app = Some (app\<lparr>
      frontier_backward := (if n \<notin> explored_backward app \<and> n \<notin> set (frontier_backward app) then frontier_backward app @ [n] else frontier_backward app),
      came_from_backward := (if n \<notin> explored_backward app \<and> n \<notin> set (frontier_backward app)
                    then (came_from_backward app)(n \<mapsto> Some cur) else came_from_backward app),
      cell_states := (if n \<notin> explored_backward app \<and> n \<notin> set (frontier_backward app) \<and> n \<noteq> start app
                      then put (cell_states app) n FRONTIER2 else cell_states app)\<rparr>)"
  using assms by (simp add: backward_visit_def paint_in[where r=r and c=c] Let_def)

lemma backward_loop:
  assumes "matrix_ok (cell_states app) r c" and "\<forall>n\<in>set ns. in_bounds r c n" and "distinct ns"
  shows "\<exists>C S. for_each (backward_visit cur) ns app = Some (app\<lparr>
      frontier_backward := frontier_backward app @ filter (\<lambda>n. n \<notin> explored_backward app \<and> n \<notin> set (frontier_backward app)) ns,
      came_from_backward := C, cell_states := S\<rparr>)
    \<and> (\<forall>k. C k = (if k \<in> set ns \<and> k \<notin> explored_backward app \<and> k \<notin> set (frontier_backward app)
                   then Some (Some cur) else came_from_backward app k))
    \<and> matrix_ok S r c
    \<and> (\<forall>k. in_bounds r c k \<longrightarrow> cell_at S (fst k) (snd k) =
          (if k \<in> set ns \<and> k \<notin> explored_backward app \<and> k \<notin> set (frontier_backward app) \<and> k \<noteq> start app
           then Some FRONTIER2 else cell_at (cell_states app) (fst k) (snd k)))"
  using assms
proof (induction ns arbitrary: app)
  case Nil
  then show ?case
    by (intro exI[of _ "came_from_backward app"] exI[of _ "cell_states app"]) simp
next
  case (Cons n ns)
  define app1 where "app1 = app\<lparr>
      frontier_backward := (if n \<notin> explored_backward app \<and> n \<notin> set (frontier_backward app) then frontier_backward app @ [n] else frontier_backward app),
      came_from_backward := (if n \<notin> explored_backward app \<and> n \<notin> set (frontier_backward app)
                    then (came_from_backward app)(n \<mapsto> Some cur) else came_from_backward app),
      cell_states := (if n \<notin> explored_backward app \<and> n \<notin> set (frontier_backward app) \<and> n \<noteq> start app
                      then put (cell_states app) n FRONTIER2 else cell_states app)\<rparr>"
  have nin: "n \<notin> set ns" "distinct ns" "\<forall>k\<in>set ns. in_bounds r c k" "in_bounds r c n"
    using Cons.prems by auto
  have v: "backward_visit cur n app = Some app1"
    unfolding app1_def by (rule backward_visit_eq[OF Cons.prems(1) nin(4)])
  have m1: "matrix_ok (cell_states app1) r c"
    using Cons.prems(1) by (simp add: app1_def matrix_ok_put)
  from Cons.IH[OF m1 nin(3) nin(2)] obtain C S where
    run: "for_each (backward_visit cur) ns app1 = Some (app1\<lparr>
      frontier_backward := frontier_backward app1 @ filter (\<lambda>n. n \<notin> explored_backward app1 \<and> n \<notin> set (frontier_backward app1)) ns,
      came_from_backward := C, cell_states := S\<rparr>)"
    and C: "\<And>k. C k = (if k \<in> set ns \<and> k \<notin> explored_backward app1 \<and> k \<notin> set (frontier_backward app1)
                   then Some (Some cur) else came_from_backward app1 k)"
    and S: "matrix_ok S r c"
      "\<And>k. in_bounds r c k \<Longrightarrow> cell_at S (fst k) (snd k) =
          (if k \<in> set ns \<and> k \<notin> explored_backward app1 \<and> k \<notin> set (frontier_backward app1) \<and> k \<noteq> start app1
           then Some FRONTIER2 else cell_at (cell_states app1) (fst k) (snd k))"
    by blast
  have f: "frontier_backward app1 @ filter (\<lambda>k. k \<notin> explored_backward app1 \<and> k \<notin> set (frontier_backward app1)) ns
         = frontier_backward app @ filter (\<lambda>k. k \<notin> explored_backward app \<and> k \<notin> set (frontier_backward app)) (n # ns)"
    using nin(1) by (auto simp: app1_def intro!: filter_cong)
  have "for_each (backward_visit cur) (n # ns) app = Some (app\<lparr>
      frontier_backward := frontier_backward app @ filter (\<lambda>k. k \<notin> explored_backward app \<and> k \<notin> set (frontier_backward app)) (n # ns),
      came_from_backward := C, cell_states := S\<rparr>)"
    by (simp add: v run f) (simp add: app1_def)
  moreover have "\<forall>k. C k = (if k \<in> set (n # ns) \<and> k \<notin> explored_backward app \<and> k \<notin> set (frontier_backward app)
                   then Some (Some cur) else came_from_backward app k)"
    using nin(1) by (auto simp: C app1_def)
  moreover have "\<forall>k. in_bounds r c k \<longrightarrow> cell_at S (fst k) (snd k) =
          (if k \<in> set (n # ns) \<and> k \<notin> explored_backward app \<and> k \<notin> set (frontier_backward app) \<and> k \<noteq> start app
           then Some FRONTIER2 else cell_at (cell_states app) (fst k) (snd k))"
  proof (intro allI impI)
    fix k assume kb: "in_bounds r c k"
    have p: "cell_at (put (cell_states app) n FRONTIER2) (fst k) (snd k)
        = (if k = n then Some FRONTIER2 else cell_at (cell_states app) (fst k) (snd k))"
      by (rule cell_put[OF Cons.prems(1) nin(4) kb])
    show "cell_at S (fst k) (snd k) =
          (if k \<in> set (n # ns) \<and> k \<notin> explored_backward app \<and> k \<notin> set (frontier_backward app) \<and> k \<noteq> start app
           then Some FRONTIER2 else cell_at (cell_states app) (fst k) (snd k))"
      using nin(1) p S(2)[OF kb] by (cases "k = n") (auto simp: app1_def)
  qed
  ultimately show ?case using S(1) by blast
qed

lemma bidirectional_forward_step:
  assumes ev: "step_count app mod 2 = 0" and fr: "frontier_forward app = cur # rest"
    and mg: "matrix_ok (grid app) (rows app) (cols app)"
    and mc: "matrix_ok (cell_states app) (rows app) (cols app)"
    and ib: "in_bounds (rows app) (cols app) cur"
    and nm: "cur \<notin> explored_backward app"
  shows "\<exists>C S. bidirectional_step app = Some (app\<lparr>
      frontier_forward := rest @ filter (\<lambda>n. n \<notin> insert cur (explored_forward app) \<and> n \<notin> set rest)
          (neighbors_of app cur),
      explored_forward := insert cur (explored_forward app),
      came_from_forward := C, cell_states := S, step_count := step_count app + 1\<rparr>)
    \<and> (\<forall>k. C k = (if k \<in> set (neighbors_of app cur) \<and> k \<notin> insert cur (explored_forward app) \<and> k \<notin> set rest
                   then Some (Some cur) else came_from_forward app k))
    \<and> matrix_ok S (rows app) (cols app)"
proof -
  let ?r = "rows app" and ?c = "cols app"
  define ns where "ns = neighbors_of app cur"
  have gn: "get_neighbors (grid app) cur ?r ?c = Some ns"
    unfolding ns_def neighbors_of_def by (rule get_neighbors_total[OF mg])
  define cs where "cs = (if cur \<noteq> start app then put (cell_states app) cur EXPLORED else cell_states app)"
  have mcs: "matrix_ok cs ?r ?c" unfolding cs_def using mc by (simp add: matrix_ok_put)
  define b where "b = app\<lparr>frontier_forward := rest,
      explored_forward := insert cur (explored_forward app), cell_states := cs\<rparr>"
  have mb: "matrix_ok (cell_states b) ?r ?c" by (simp add: b_def mcs)
  from forward_loop[OF mb neighbors_props(2)[OF gn] neighbors_props(1)[OF gn], of cur]
  obtain C S where loop: "for_each (forward_visit cur) ns b = Some (b\<lparr>
      frontier_forward := frontier_forward b @
        filter (\<lambda>n. n \<notin> explored_forward b \<and> n \<notin> set (frontier_forward b)) ns,
      came_from_forward := C, cell_states := S\<rparr>)"
    and C: "\<And>k. C k = (if k \<in> set ns \<and> k \<notin> explored_forward b \<and> k \<notin> set (frontier_forward b)
                   then Some (Some cur) else came_from_forward b k)"
    and S: "matrix_ok S ?r ?c"
    by blast
  have pre: "(if cur \<noteq> start app
       then paint (app\<lparr>frontier_forward := rest, explored_forward := insert cur (explored_forward app)\<rparr>)
              cur EXPLORED
       else Some (app\<lparr>frontier_forward := rest, explored_forward := insert cur (explored_forward app)\<rparr>))
     = Some b"
    using mc ib by (simp add: paint_in[where r="?r" and c="?c"] b_def cs_def)
  have "bidirectional_step app = Some (b\<lparr>
      frontier_forward := frontier_forward b @
        filter (\<lambda>n. n \<notin> explored_forward b \<and> n \<notin> set (frontier_forward b)) ns,
      came_from_forward := C, cell_states := S, step_count := step_count b + 1\<rparr>)"
    unfolding bidirectional_step_def using ev fr nm
    by (simp add: Let_def pre) (simp add: b_def gn loop[unfolded b_def])
  then have "bidirectional_step app = Some (app\<lparr>
      frontier_forward := rest @ filter (\<lambda>n. n \<notin> insert cur (explored_forward app) \<and> n \<notin> set rest) ns,
      explored_forward := insert cur (explored_forward app),
      came_from_forward := C, cell_states := S, step_count := step_count app + 1\<rparr>)"
    by (simp add: b_def)
  moreover have "\<forall>k. C k = (if k \<in> set ns \<and> k \<notin> insert cur (explored_forward app) \<and> k \<notin> set rest
                   then Some (Some cur) else came_from_forward app k)"
    by (simp add: C b_def)
  ultimately show ?thesis using S unfolding ns_def by blast
qed

section \<open>Start equal to target\<close>

lemma ticks_1: "ticks 1 app = update app"
  by (simp add: One_nat_def split: option.splits)

lemma ticks_2: "ticks 2 app = Option.bind (update app) update"
  by (simp add: numeral_2_eq_2 split: option.splits)

lemma walk_back_root: "cf s = Some None \<Longrightarrow> walk_back cf (Some s) [] = Some [s]"
  by (simp add: walk_back.simps)

lemma start_is_target_unidirectional:
  assumes "ready app" and "start app = target app" and "selected_algorithm app \<noteq> Bidirectional"
  shows "\<exists>app' e l. search 1 app = Some app' \<and> search_complete app' \<and> \<not> searching app' \<and>
              step_count app' = 0 \<and> status_message app' = PATH_FOUND 0 e l"
proof -
  let ?r = "rows app" and ?c = "cols app" and ?s = "start app"
  from assms have ib: "in_bounds ?r ?c ?s" and ns: "\<not> searching app" by (auto simp: ready_def)
  from in_bounds_nonneg[OF ib] have mk: "matrix_ok (create_cell_states ?r ?c) ?r ?c"
    by (simp add: matrix_ok_create)
  show ?thesis using assms(2,3) ns ib mk
    by (cases "selected_algorithm app")
       (simp_all add: search_def ticks_1 start_search_def clear_search_def paint_in update_def
        algorithm_step_def bfs_step_def dfs_step_def ucs_step_def dls_step_def iddfs_step_def
        reconstruct_path_def walk_back_root mark_path_def mark_node_def finish_search_def Let_def)
qed

lemma start_is_target_bidirectional:
  assumes "ready app" and "start app = target app" and "selected_algorithm app = Bidirectional"
  shows "\<exists>a1 a2 e l. search 1 app = Some a1 \<and> searching a1 \<and> \<not> search_complete a1 \<and>
      step_count a1 = 1 \<and> search 2 app = Some a2 \<and> search_complete a2 \<and> \<not> searching a2 \<and>
      step_count a2 = 1 \<and> status_message a2 = PATH_FOUND 1 e l"
proof -
  let ?r = "rows app" and ?c = "cols app" and ?s = "start app"
  from assms have ib: "in_bounds ?r ?c ?s" and ns: "\<not> searching app"
    and g: "matrix_ok (grid app) ?r ?c" by (auto simp: ready_def)
  from in_bounds_nonneg[OF ib] have mk: "matrix_ok (create_cell_states ?r ?c) ?r ?c"
    by (simp add: matrix_ok_create)
  define cs where "cs = put (put (create_cell_states ?r ?c) ?s FRONTIER) ?s FRONTIER2"
  have mcs: "matrix_ok cs ?r ?c" unfolding cs_def by (intro matrix_ok_put mk)
  define a0 where "a0 = (clear_search app)\<lparr>cell_states := cs, searching := True,
      frontier_forward := [?s], frontier_backward := [?s],
      came_from_forward := [?s \<mapsto> None], came_from_backward := [?s \<mapsto> None],
      status_message := SEARCHING\<rparr>"
  have s0: "start_search app = Some a0"
    using assms(2,3) ns ib mk
    by (simp add: start_search_def paint_in[where r="?r" and c="?c"] matrix_ok_put a0_def cs_def
        clear_search_def Let_def)
  have f0: "searching a0" "selected_algorithm a0 = Bidirectional" "step_count a0 = 0"
    "frontier_forward a0 = [?s]" "rows a0 = ?r" "cols a0 = ?c" "grid a0 = grid app"
    "cell_states a0 = cs" "explored_backward a0 = {}" "start a0 = ?s" "target a0 = ?s"
    "frontier_backward a0 = [?s]" "explored_forward a0 = {}" "\<not> search_complete a0"
    "came_from_forward a0 ?s = Some None" "came_from_backward a0 ?s = Some None"
    using assms(2,3) by (simp_all add: a0_def clear_search_def)
  from bidirectional_forward_step[of a0 ?s "[]"] f0 g mcs ib
  obtain C S a1 where a1: "a1 = a0\<lparr>
      frontier_forward := [] @ filter (\<lambda>n. n \<notin> insert ?s (explored_forward a0) \<and> n \<notin> set [])
          (neighbors_of a0 ?s),
      explored_forward := insert ?s (explored_forward a0),
      came_from_forward := C, cell_states := S, step_count := step_count a0 + 1\<rparr>"
    and t1: "bidirectional_step a0 = Some a1"
    and C: "\<And>k. C k = (if k \<in> set (neighbors_of a0 ?s) \<and> k \<notin> insert ?s (explored_forward a0) \<and> k \<notin> set []
                   then Some (Some ?s) else came_from_forward a0 k)"
    by auto
  have f1: "searching a1" "selected_algorithm a1 = Bidirectional" "step_count a1 = 1"
    "frontier_backward a1 = [?s]" "explored_forward a1 = {?s}" "explored_backward a1 = {}"
    "start a1 = ?s" "target a1 = ?s" "\<not> search_complete a1"
    "came_from_forward a1 ?s = Some None" "came_from_backward a1 ?s = Some None"
    by (simp_all add: a1 f0 C)
  have u0: "update a0 = Some a1" by (simp add: update_def algorithm_step_def f0 t1)
  have u1: "\<exists>a2 e l. update a1 = Some a2 \<and> search_complete a2 \<and> \<not> searching a2 \<and>
      step_count a2 = 1 \<and> status_message a2 = PATH_FOUND 1 e l"
    by (simp add: update_def algorithm_step_def bidirectional_step_def f1 Let_def
        reconstruct_bidirectional_path_def walk_back_root mark_path_def mark_node_def
        finish_search_def)
  show ?thesis using u1 f1
    by (auto simp: search_def s0 ticks_1 ticks_2 u0)
qed

text \<open>
  C3, as the code has it. When the start is the target, breadth-first, depth-first,
  uniform-cost, depth-limited and iterative-deepening search report success on the
  first tick, with a step count of zero. Bidirectional search expands the start on the
  first tick and keeps searching; it reports success on the second tick, when the
  backward side pops the same node, with a step count of one.
\<close>

theorem start_is_target:
  assumes "ready app" and "start app = target app"
  shows "(selected_algorithm app \<noteq> Bidirectional \<longrightarrow>
      (\<exists>app' e l. search 1 app = Some app' \<and> search_complete app' \<and> \<not> searching app' \<and>
              step_count app' = 0 \<and> status_message app' = PATH_FOUND 0 e l))
    \<and> (selected_algorithm app = Bidirectional \<longrightarrow>
      (\<exists>a1 a2 e l. search 1 app = Some a1 \<and> searching a1 \<and> \<not> search_complete a1 \<and>
        step_count a1 = 1 \<and> search 2 app = Some a2 \<and> search_complete a2 \<and> \<not> searching a2 \<and>
        step_count a2 = 1 \<and> status_message a2 = PATH_FOUND 1 e l))"
  using start_is_target_unidirectional[OF assms] start_is_target_bidirectional[OF assms]
  by blast

text \<open>C3, witness: the grid of one cell, with breadth-first and with bidirectional search.\<close>

theorem start_is_target_witness:
  "(\<exists>app' e l. search 1 (idle_app 1 1 [[TARGET]] (0, 0) (0, 0) BFS) = Some app' \<and>
      search_complete app' \<and> \<not> searching app' \<and> step_count app' = 0 \<and>
      status_message app' = PATH_FOUND 0 e l)
   \<and> (\<exists>a1 a2 e l. search 1 (idle_app 1 1 [[TARGET]] (0, 0) (0, 0) Bidirectional) = Some a1 \<and>
      searching a1 \<and> \<not> search_complete a1 \<and> step_count a1 = 1 \<and>
      search 2 (idle_app 1 1 [[TARGET]] (0, 0) (0, 0) Bidirectional) = Some a2 \<and>
      search_complete a2 \<and> \<not> searching a2 \<and> step_count a2 = 1 \<and>
      status_message a2 = PATH_FOUND 1 e l)"
proof -
  have r: "ready (idle_app 1 1 [[TARGET]] (0, 0) (0, 0) algo)" for algo
    by (simp add: ready_def idle_app_def matrix_ok_def in_bounds_def cell_at_def py_get_def
        py_index_def)
  have e: "start (idle_app 1 1 [[TARGET]] (0, 0) (0, 0) algo)
      = target (idle_app 1 1 [[TARGET]] (0, 0) (0, 0) algo)" for algo
    by (simp add: idle_app_def)
  have s: "selected_algorithm (idle_app 1 1 [[TARGET]] (0, 0) (0, 0) algo) = algo" for algo
    by (simp add: idle_app_def)
  from start_is_target[OF r e, of BFS] start_is_target[OF r e, of Bidirectional]
  show ?thesis by (simp add: s)
qed

text \<open>
  C3, counterexample to the claim as stated. On the grid of one cell bidirectional
  search is still running after its first tick; its second tick reports success with
  one step counted. The status also shows the reported path length, 2, for
  bidirectional as for breadth-first search.
\<close>

theorem start_is_target_not_immediate:
  "map_option (\<lambda>a. (searching a, search_complete a, step_count a))
     (search 1 (idle_app 1 1 [[TARGET]] (0, 0) (0, 0) Bidirectional)) = Some (True, False, 1)
   \<and> map_option status_message
     (search 2 (idle_app 1 1 [[TARGET]] (0, 0) (0, 0) Bidirectional)) = Some (PATH_FOUND 1 2 2)
   \<and> map_option status_message
     (search 1 (idle_app 1 1 [[TARGET]] (0, 0) (0, 0) BFS)) = Some (PATH_FOUND 0 1 2)"
  by code_simp

section \<open>The neighbor loops of the depth-first steps\<close>

lemma dfs_visit_eq:
  assumes "matrix_ok (cell_states app) r c" and "in_bounds r c n"
  shows "dfs_visit cur n app = Some (app\<lparr>
      frontier := (if n \<notin> explored app \<and> n \<notin> set (frontier app) then frontier app @ [n] else frontier app),
      came_from := (if n \<notin> explored app \<and> n \<notin> set (frontier app) \<and> came_from app n = None
                    then (came_from app)(n \<mapsto> Some cur) else came_from app),
      cell_states := (if n \<notin> explored app \<and> n \<notin> set (frontier app) \<and> n \<noteq> target app
                      then put (cell_states app) n FRONTIER else cell_states app)\<rparr>)"
  using assms
  by (cases "n = target app"; cases "came_from app n")
     (simp_all add: dfs_visit_def paint_in[where r=r and c=c] Let_def)

lemma dfs_loop:
  assumes "matrix_ok (cell_states app) r c" and "\<forall>n\<in>set ns. in_bounds r c n" and "distinct ns"
  shows "\<exists>C S. for_each (dfs_visit cur) ns app = Some (app\<lparr>
      frontier := frontier app @ filter (\<lambda>n. n \<notin> explored app \<and> n \<notin> set (frontier app)) ns,
      came_from := C, cell_states := S\<rparr>)
    \<and> (\<forall>k. C k = (if k \<in> set ns \<and> k \<notin> explored app \<and> k \<notin> set (frontier app) \<and> came_from app k = None
                   then Some (Some cur) else came_from app k))
    \<and> matrix_ok S r c
    \<and> (\<forall>k. in_bounds r c k \<longrightarrow> cell_at S (fst k) (snd k) =
          (if k \<in> set ns \<and> k \<notin> explored app \<and> k \<notin> set (frontier app) \<and> k \<noteq> target app
           then Some FRONTIER else cell_at (cell_states app) (fst k) (snd k)))"
  using assms
proof (induction ns arbitrary: app)
  case Nil
  then show ?case
    by (intro exI[of _ "came_from app"] exI[of _ "cell_states app"]) simp
next
  case (Cons n ns)
  define app1 where "app1 = app\<lparr>
      frontier := (if n \<notin> explored app \<and> n \<notin> set (frontier app) then frontier app @ [n] else frontier app),
      came_from := (if n \<notin> explored app \<and> n \<notin> set (frontier app) \<and> came_from app n = None
                    then (came_from app)(n \<mapsto> Some cur) else came_from app),
      cell_states := (if n \<notin> explored app \<and> n \<notin> set (frontier app) \<and> n \<noteq> target app
                      then put (cell_states app) n FRONTIER else cell_states app)\<rparr>"
  have nin: "n \<notin> set ns" "distinct ns" "\<forall>k\<in>set ns. in_bounds r c k" "in_bounds r c n"
    using Cons.prems by auto
  have v: "dfs_visit cur n app = Some app1"
    unfolding app1_def by (rule dfs_visit_eq[OF Cons.prems(1) nin(4)])
  have m1: "matrix_ok (cell_states app1) r c"
    using Cons.prems(1) by (simp add: app1_def matrix_ok_put)
  from Cons.IH[OF m1 nin(3) nin(2)] obtain C S where
    run: "for_each (dfs_visit cur) ns app1 = Some (app1\<lparr>
      frontier := frontier app1 @ filter (\<lambda>n. n \<notin> explored app1 \<and> n \<notin> set (frontier app1)) ns,
      came_from := C, cell_states := S\<rparr>)"
    and C: "\<And>k. C k = (if k \<in> set ns \<and> k \<notin> explored app1 \<and> k \<notin> set (frontier app1) \<and> came_from app1 k = None
                   then Some (Some cur) else came_from app1 k)"
    and S: "matrix_ok S r c"
      "\<And>k. in_bounds r c k \<Longrightarrow> cell_at S (fst k) (snd k) =
          (if k \<in> set ns \<and> k \<notin> explored app1 \<and> k \<notin> set (frontier app1) \<and> k \<noteq> target app1
           then Some FRONTIER else cell_at (cell_states app1) (fst k) (snd k))"
    by blast
  have f: "frontier app1 @ filter (\<lambda>k. k \<notin> explored app1 \<and> k \<notin> set (frontier app1)) ns
         = frontier app @ filter (\<lambda>k. k \<notin> explored app \<and> k \<notin> set (frontier app)) (n # ns)"
    using nin(1) by (auto simp: app1_def intro!: filter_cong)
  have "for_each (dfs_visit cur) (n # ns) app = Some (app\<lparr>
      frontier := frontier app @ filter (\<lambda>k. k \<notin> explored app \<and> k \<notin> set (frontier app)) (n # ns),
      came_from := C, cell_states := S\<rparr>)"
    by (simp add: v run f) (simp add: app1_def)
  moreover have "\<forall>k. C k = (if k \<in> set (n # ns) \<and> k \<notin> explored app \<and> k \<notin> set (frontier app) \<and> came_from app k = None
                   then Some (Some cur) else came_from app k)"
    using nin(1) by (auto simp: C app1_def)
  moreover have "\<forall>k. in_bounds r c k \<longrightarrow> cell_at S (fst k) (snd k) =
          (if k \<in> set (n # ns) \<and> k \<notin> explored app \<and> k \<notin> set (frontier app) \<and> k \<noteq> target app
           then Some FRONTIER else cell_at (cell_states app) (fst k) (snd k))"
  proof (intro allI impI)
    fix k assume kb: "in_bounds r c k"
    have p: "cell_at (put (cell_states app) n FRONTIER) (fst k) (snd k)
        = (if k = n then Some FRONTIER else cell_at (cell_states app) (fst k) (snd k))"
      by (rule cell_put[OF Cons.prems(1) nin(4) kb])
    show "cell_at S (fst k) (snd k) =
          (if k \<in> set (n # ns) \<and> k \<notin> explored app \<and> k \<notin> set (frontier app) \<and> k \<noteq> target app
           then Some FRONTIER else cell_at (cell_states app) (fst k) (snd k))"
      using nin(1) p S(2)[OF kb] by (cases "k = n") (auto simp: app1_def)
  qed
  ultimately show ?case using S(1) by blast
qed

lemma dls_visit_eq:
  assumes "matrix_ok (cell_states app) r c" and "in_bounds r c n"
  shows "dls_visit cur d n app = Some (app\<lparr>
      frontier_depth := (if n \<notin> explored app then frontier_depth app @ [(n, d + 1)] else frontier_depth app),
      came_from := (if n \<notin> explored app \<and> came_from app n = None
                    then (came_from app)(n \<mapsto> Some cur) else came_from app),
      cell_states := (if n \<notin> explored app \<and> n \<noteq> target app
                      then put (cell_states app) n FRONTIER else cell_states app)\<rparr>)"
  using assms
  by (cases "n = target app"; cases "came_from app n")
     (simp_all add: dls_visit_def paint_in[where r=r and c=c] Let_def)

lemma dls_loop:
  assumes "matrix_ok (cell_states app) r c" and "\<forall>n\<in>set ns. in_bounds r c n" and "distinct ns"
  shows "\<exists>C S. for_each (dls_visit cur d) ns app = Some (app\<lparr>
      frontier_depth := frontier_depth app @ map (\<lambda>n. (n, d + 1)) (filter (\<lambda>n. n \<notin> explored app) ns),
      came_from := C, cell_states := S\<rparr>)
    \<and> (\<forall>k. C k = (if k \<in> set ns \<and> k \<notin> explored app \<and> came_from app k = None
                   then Some (Some cur) else came_from app k))
    \<and> matrix_ok S r c
    \<and> (\<forall>k. in_bounds r c k \<longrightarrow> cell_at S (fst k) (snd k) =
          (if k \<in> set ns \<and> k \<notin> explored app \<and> k \<noteq> target app
           then Some FRONTIER else cell_at (cell_states app) (fst k) (snd k)))"
  using assms
proof (induction ns arbitrary: app)
  case Nil
  then show ?case
    by (intro exI[of _ "came_from app"] exI[of _ "cell_states app"]) simp
next
  case (Cons n ns)
  define app1 where "app1 = app\<lparr>
      frontier_depth := (if n \<notin> explored app then frontier_depth app @ [(n, d + 1)] else frontier_depth app),
      came_from := (if n \<notin> explored app \<and> came_from app n = None
                    then (came_from app)(n \<mapsto> Some cur) else came_from app),
      cell_states := (if n \<notin> explored app \<and> n \<noteq> target app
                      then put (cell_states app) n FRONTIER else cell_states app)\<rparr>"
  have nin: "n \<notin> set ns" "distinct ns" "\<forall>k\<in>set ns. in_bounds r c k" "in_bounds r c n"
    using Cons.prems by auto
  have v: "dls_visit cur d n app = Some app1"
    unfolding app1_def by (rule dls_visit_eq[OF Cons.prems(1) nin(4)])
  have m1: "matrix_ok (cell_states app1) r c"
    using Cons.prems(1) by (simp add: app1_def matrix_ok_put)
  from Cons.IH[OF m1 nin(3) nin(2)] obtain C S where
    run: "for_each (dls_visit cur d) ns app1 = Some (app1\<lparr>
      frontier_depth := frontier_depth app1 @ map (\<lambda>n. (n, d + 1)) (filter (\<lambda>n. n \<notin> explored app1) ns),
      came_from := C, cell_states := S\<rparr>)"
    and C: "\<And>k. C k = (if k \<in> set ns \<and> k \<notin> explored app1 \<and> came_from app1 k = None
                   then Some (Some cur) else came_from app1 k)"
    and S: "matrix_ok S r c"
      "\<And>k. in_bounds r c k \<Longrightarrow> cell_at S (fst k) (snd k) =
          (if k \<in> set ns \<and> k \<notin> explored app1 \<and> k \<noteq> target app1
           then Some FRONTIER else cell_at (cell_states app1) (fst k) (snd k))"
    by blast
  have f: "frontier_depth app1 @ map (\<lambda>n. (n, d + 1)) (filter (\<lambda>k. k \<notin> explored app1) ns)
         = frontier_depth app @ map (\<lambda>n. (n, d + 1)) (filter (\<lambda>k. k \<notin> explored app) (n # ns))"
    by (auto simp: app1_def)
  have "for_each (dls_visit cur d) (n # ns) app = Some (app\<lparr>
      frontier_depth := frontier_depth app @ map (\<lambda>n. (n, d + 1)) (filter (\<lambda>k. k \<notin> explored app) (n # ns)),
      came_from := C, cell_states := S\<rparr>)"
    by (simp add: v run f) (simp add: app1_def)
  moreover have "\<forall>k. C k = (if k \<in> set (n # ns) \<and> k \<notin> explored app \<and> came_from app k = None
                   then Some (Some cur) else came_from app k)"
    using nin(1) by (auto simp: C app1_def)
  moreover have "\<forall>k. in_bounds r c k \<longrightarrow> cell_at S (fst k) (snd k) =
          (if k \<in> set (n # ns) \<and> k \<notin> explored app \<and> k \<noteq> target app
           then Some FRONTIER else cell_at (cell_states app) (fst k) (snd k))"
  proof (intro allI impI)
    fix k assume kb: "in_bounds r c k"
    have p: "cell_at (put (cell_states app) n FRONTIER) (fst k) (snd k)
        = (if k = n then Some FRONTIER else cell_at (cell_states app) (fst k) (snd k))"
      by (rule cell_put[OF Cons.prems(1) nin(4) kb])
    show "cell_at S (fst k) (snd k) =
          (if k \<in> set (n # ns) \<and> k \<notin> explored app \<and> k \<noteq> target app
           then Some FRONTIER else cell_at (cell_states app) (fst k) (snd k))"
      using nin(1) p S(2)[OF kb] by (cases "k = n") (auto simp: app1_def)
  qed
  ultimately show ?case using S(1) by blast
qed

section \<open>The neighbor loop of the uniform-cost step\<close>

lemma ucs_visit_eq:
  assumes "matrix_ok (cell_states app) r c" and "in_bounds r c n"
    and "cost_so_far app cur = Some w"
  shows "ucs_visit cur n app = Some (app\<lparr>
      cost_so_far := (if improves app cur n
                      then (cost_so_far app)(n \<mapsto> w + get_move_cost cur n) else cost_so_far app),
      frontier_heap := (if improves app cur n
                        then frontier_heap app @ [(w + get_move_cost cur n, n)] else frontier_heap app),
      came_from := (if improves app cur n
                    then (came_from app)(n \<mapsto> Some cur) else came_from app),
      cell_states := (if improves app cur n \<and> n \<noteq> target app
                      then put (cell_states app) n FRONTIER else cell_states app)\<rparr>)"
  using assms
  by (cases "n = target app"; cases "cost_so_far app n"; cases "n \<in> explored app")
     (simp_all add: ucs_visit_def improves_def heappush_def paint_in[where r=r and c=c] Let_def)

lemma ucs_loop:
  assumes "matrix_ok (cell_states app) r c" and "\<forall>n\<in>set ns. in_bounds r c n" and "distinct ns"
    and "cur \<notin> set ns" and "cost_so_far app cur = Some w"
  shows "\<exists>K C S. for_each (ucs_visit cur) ns app = Some (app\<lparr>
      cost_so_far := K,
      frontier_heap := frontier_heap app @
         map (\<lambda>n. (w + get_move_cost cur n, n)) (filter (improves app cur) ns),
      came_from := C, cell_states := S\<rparr>)
    \<and> (\<forall>k. K k = (if k \<in> set ns \<and> improves app cur k
                   then Some (w + get_move_cost cur k) else cost_so_far app k))
    \<and> (\<forall>k. C k = (if k \<in> set ns \<and> improves app cur k
                   then Some (Some cur) else came_from app k))
    \<and> matrix_ok S r c
    \<and> (\<forall>k. in_bounds r c k \<longrightarrow> cell_at S (fst k) (snd k) =
          (if k \<in> set ns \<and> improves app cur k \<and> k \<noteq> target app
           then Some FRONTIER else cell_at (cell_states app) (fst k) (snd k)))"
  using assms
proof (induction ns arbitrary: app)
  case Nil
  then show ?case
    by (intro exI[of _ "cost_so_far app"] exI[of _ "came_from app"] exI[of _ "cell_states app"])
       simp
next
  case (Cons n ns)
  define app1 where "app1 = app\<lparr>
      cost_so_far := (if improves app cur n
                      then (cost_so_far app)(n \<mapsto> w + get_move_cost cur n) else cost_so_far app),
      frontier_heap := (if improves app cur n
                        then frontier_heap app @ [(w + get_move_cost cur n, n)] else frontier_heap app),
      came_from := (if improves app cur n
                    then (came_from app)(n \<mapsto> Some cur) else came_from app),
      cell_states := (if improves app cur n \<and> n \<noteq> target app
                      then put (cell_states app) n FRONTIER else cell_states app)\<rparr>"
  have nin: "n \<notin> set ns" "distinct ns" "\<forall>k\<in>set ns. in_bounds r c k" "in_bounds r c n"
    "cur \<notin> set ns" "cur \<noteq> n"
    using Cons.prems by auto
  have v: "ucs_visit cur n app = Some app1"
    unfolding app1_def by (rule ucs_visit_eq[OF Cons.prems(1) nin(4) Cons.prems(5)])
  have m1: "matrix_ok (cell_states app1) r c"
    using Cons.prems(1) by (simp add: app1_def matrix_ok_put)
  have c1: "cost_so_far app1 cur = Some w"
    using nin(6) Cons.prems(5) by (simp add: app1_def)
  have ck: "cost_so_far app1 k = cost_so_far app k" if "k \<noteq> n" for k
    using that by (simp add: app1_def)
  have e1: "explored app1 = explored app" by (simp add: app1_def)
  have imp: "improves app1 cur k = improves app cur k" if "k \<noteq> n" for k
    using that by (simp add: improves_def ck e1 c1 Cons.prems(5))
  have impf: "filter (improves app1 cur) ns = filter (improves app cur) ns"
  proof (rule filter_cong[OF refl])
    fix k assume "k \<in> set ns"
    with nin(1) have "k \<noteq> n" by auto
    then show "improves app1 cur k = improves app cur k" by (rule imp)
  qed
  from Cons.IH[OF m1 nin(3) nin(2) nin(5) c1] obtain K C S where
    run: "for_each (ucs_visit cur) ns app1 = Some (app1\<lparr>
      cost_so_far := K,
      frontier_heap := frontier_heap app1 @
         map (\<lambda>n. (w + get_move_cost cur n, n)) (filter (improves app1 cur) ns),
      came_from := C, cell_states := S\<rparr>)"
    and K: "\<And>k. K k = (if k \<in> set ns \<and> improves app1 cur k
                   then Some (w + get_move_cost cur k) else cost_so_far app1 k)"
    and C: "\<And>k. C k = (if k \<in> set ns \<and> improves app1 cur k
                   then Some (Some cur) else came_from app1 k)"
    and S: "matrix_ok S r c"
      "\<And>k. in_bounds r c k \<Longrightarrow> cell_at S (fst k) (snd k) =
          (if k \<in> set ns \<and> improves app1 cur k \<and> k \<noteq> target app1
           then Some FRONTIER else cell_at (cell_states app1) (fst k) (snd k))"
    by blast
  have f: "frontier_heap app1 @ map (\<lambda>n. (w + get_move_cost cur n, n)) (filter (improves app1 cur) ns)
         = frontier_heap app @ map (\<lambda>n. (w + get_move_cost cur n, n)) (filter (improves app cur) (n # ns))"
    unfolding impf by (simp add: app1_def)
  have "for_each (ucs_visit cur) (n # ns) app = Some (app\<lparr>
      cost_so_far := K,
      frontier_heap := frontier_heap app @
         map (\<lambda>n. (w + get_move_cost cur n, n)) (filter (improves app cur) (n # ns)),
      came_from := C, cell_states := S\<rparr>)"
    by (simp add: v run f) (simp add: app1_def)
  moreover have "\<forall>k. K k = (if k \<in> set (n # ns) \<and> improves app cur k
                   then Some (w + get_move_cost cur k) else cost_so_far app k)"
  proof
    fix k show "K k = (if k \<in> set (n # ns) \<and> improves app cur k
                   then Some (w + get_move_cost cur k) else cost_so_far app k)"
      using nin(1) imp[of k] by (cases "k = n") (auto simp: K app1_def)
  qed
  moreover have "\<forall>k. C k = (if k \<in> set (n # ns) \<and> improves app cur k
                   then Some (Some cur) else came_from app k)"
  proof
    fix k show "C k = (if k \<in> set (n # ns) \<and> improves app cur k
                   then Some (Some cur) else came_from app k)"
      using nin(1) imp[of k] by (cases "k = n") (auto simp: C app1_def)
  qed
  moreover have "\<forall>k. in_bounds r c k \<longrightarrow> cell_at S (fst k) (snd k) =
          (if k \<in> set (n # ns) \<and> improves app cur k \<and> k \<noteq> target app
           then Some FRONTIER else cell_at (cell_states app) (fst k) (snd k))"
  proof (intro allI impI)
    fix k assume kb: "in_bounds r c k"
    have p: "cell_at (put (cell_states app) n FRONTIER) (fst k) (snd k)
        = (if k = n then Some FRONTIER else cell_at (cell_states app) (fst k) (snd k))"
      by (rule cell_put[OF Cons.prems(1) nin(4) kb])
    show "cell_at S (fst k) (snd k) =
          (if k \<in> set (n # ns) \<and> improves app cur k \<and> k \<noteq> target app
           then Some FRONTIER else cell_at (cell_states app) (fst k) (snd k))"
      using nin(1) p S(2)[OF kb] imp[of k] by (cases "k = n") (auto simp: app1_def)
  qed
  ultimately show ?case using S(1) by blast
qed

section \<open>One expansion of each step function\<close>

lemma cell_put_if:
  assumes "matrix_ok m r c" and "in_bounds r c n" and "in_bounds r c k"
  shows "cell_at (if b then put m n v else m) (fst k) (snd k)
       = (if b \<and> k = n then Some v else cell_at m (fst k) (snd k))"
proof -
  have "cell_at (put m n v) (fst k) (snd k)
      = (if k = n then Some v else cell_at m (fst k) (snd k))"
    by (rule cell_put[OF assms])
  then show ?thesis by (cases b; cases "k = n") simp_all
qed

lemma bfs_expand:
  assumes fr: "frontier app = cur # rest" and nt: "cur \<noteq> target app"
    and mg: "matrix_ok (grid app) (rows app) (cols app)"
    and mc: "matrix_ok (cell_states app) (rows app) (cols app)"
    and ib: "in_bounds (rows app) (cols app) cur"
  shows "\<exists>C S. bfs_step app = Some (app\<lparr>
      frontier := rest @ filter (\<lambda>n. n \<notin> insert cur (explored app) \<and> n \<notin> set rest)
          (neighbors_of app cur),
      explored := insert cur (explored app),
      came_from := C, cell_states := S, step_count := step_count app + 1\<rparr>)
    \<and> (\<forall>k. C k = (if k \<in> set (neighbors_of app cur) \<and> k \<notin> insert cur (explored app) \<and> k \<notin> set rest
                   then Some (Some cur) else came_from app k))
    \<and> matrix_ok S (rows app) (cols app)
    \<and> (\<forall>k. in_bounds (rows app) (cols app) k \<longrightarrow> cell_at S (fst k) (snd k) =
          (if k \<in> set (neighbors_of app cur) \<and> k \<notin> insert cur (explored app) \<and> k \<notin> set rest
              \<and> k \<noteq> target app
           then Some FRONTIER
           else if k = cur \<and> cur \<noteq> start app then Some EXPLORED
           else cell_at (cell_states app) (fst k) (snd k)))"
proof -
  let ?r = "rows app" and ?c = "cols app"
  define ns where "ns = neighbors_of app cur"
  have gn: "get_neighbors (grid app) cur ?r ?c = Some ns"
    unfolding ns_def neighbors_of_def by (rule get_neighbors_total[OF mg])
  define cs where "cs = (if cur \<noteq> start app then put (cell_states app) cur EXPLORED else cell_states app)"
  have mcs: "matrix_ok cs ?r ?c" unfolding cs_def using mc by (simp add: matrix_ok_put)
  define b where "b = app\<lparr>frontier := rest,
      explored := insert cur (explored app), cell_states := cs\<rparr>"
  have mb: "matrix_ok (cell_states b) ?r ?c" by (simp add: b_def mcs)
  from bfs_loop[OF mb neighbors_props(2)[OF gn] neighbors_props(1)[OF gn], of cur]
  obtain C S where loop: "for_each (bfs_visit cur) ns b = Some (b\<lparr>
      frontier := frontier b @
        filter (\<lambda>n. n \<notin> explored b \<and> n \<notin> set (frontier b)) ns,
      came_from := C, cell_states := S\<rparr>)"
    and C: "\<And>k. C k = (if k \<in> set ns \<and> k \<notin> explored b \<and> k \<notin> set (frontier b)
                   then Some (Some cur) else came_from b k)"
    and S: "matrix_ok S ?r ?c"
      "\<And>k. in_bounds ?r ?c k \<Longrightarrow> cell_at S (fst k) (snd k) =
          (if k \<in> set ns \<and> k \<notin> explored b \<and> k \<notin> set (frontier b) \<and> k \<noteq> target b
           then Some FRONTIER else cell_at (cell_states b) (fst k) (snd k))"
    by blast
  have "bfs_step app = Some (b\<lparr>
      frontier := frontier b @ filter (\<lambda>n. n \<notin> explored b \<and> n \<notin> set (frontier b)) ns,
      came_from := C, cell_states := S, step_count := step_count b + 1\<rparr>)"
    using loop[unfolded b_def cs_def] fr nt gn mc ib
    by (cases "cur = start app")
       (simp_all add: bfs_step_def Let_def paint_in[where r="?r" and c="?c"] b_def cs_def)
  then have "bfs_step app = Some (app\<lparr>
      frontier := rest @ filter (\<lambda>n. n \<notin> insert cur (explored app) \<and> n \<notin> set rest) ns,
      explored := insert cur (explored app),
      came_from := C, cell_states := S, step_count := step_count app + 1\<rparr>)"
    by (simp add: b_def)
  moreover have "\<forall>k. C k = (if k \<in> set ns \<and> k \<notin> insert cur (explored app) \<and> k \<notin> set rest
                   then Some (Some cur) else came_from app k)"
    by (simp add: C b_def)
  moreover have "\<forall>k. in_bounds ?r ?c k \<longrightarrow> cell_at S (fst k) (snd k) =
          (if k \<in> set ns \<and> k \<notin> insert cur (explored app) \<and> k \<notin> set rest \<and> k \<noteq> target app
           then Some FRONTIER
           else if k = cur \<and> cur \<noteq> start app then Some EXPLORED
           else cell_at (cell_states app) (fst k) (snd k))"
  proof (intro allI impI)
    fix k assume kb: "in_bounds ?r ?c k"
    have "cell_at cs (fst k) (snd k)
        = (if cur \<noteq> start app \<and> k = cur then Some EXPLORED else cell_at (cell_states app) (fst k) (snd k))"
      unfolding cs_def by (rule cell_put_if[OF mc ib kb])
    then show "cell_at S (fst k) (snd k) =
          (if k \<in> set ns \<and> k \<notin> insert cur (explored app) \<and> k \<notin> set rest \<and> k \<noteq> target app
           then Some FRONTIER
           else if k = cur \<and> cur \<noteq> start app then Some EXPLORED
           else cell_at (cell_states app) (fst k) (snd k))"
      using S(2)[OF kb] by (auto simp: b_def)
  qed
  ultimately show ?thesis using S(1) unfolding ns_def by blast
qed

lemma dfs_expand:
  assumes fr: "frontier app \<noteq> []" and cur: "cur = last (frontier app)"
    and rest: "rest = butlast (frontier app)"
    and ne: "cur \<notin> explored app" and nt: "cur \<noteq> target app"
    and mg: "matrix_ok (grid app) (rows app) (cols app)"
    and mc: "matrix_ok (cell_states app) (rows app) (cols app)"
    and ib: "in_bounds (rows app) (cols app) cur"
  shows "\<exists>C S. dfs_step app = Some (app\<lparr>
      frontier := rest @ filter (\<lambda>n. n \<notin> insert cur (explored app) \<and> n \<notin> set rest)
          (rev (neighbors_of app cur)),
      explored := insert cur (explored app),
      came_from := C, cell_states := S, step_count := step_count app + 1\<rparr>)
    \<and> (\<forall>k. C k = (if k \<in> set (neighbors_of app cur) \<and> k \<notin> insert cur (explored app) \<and> k \<notin> set rest
                      \<and> came_from app k = None
                   then Some (Some cur) else came_from app k))
    \<and> matrix_ok S (rows app) (cols app)
    \<and> (\<forall>k. in_bounds (rows app) (cols app) k \<longrightarrow> cell_at S (fst k) (snd k) =
          (if k \<in> set (neighbors_of app cur) \<and> k \<notin> insert cur (explored app) \<and> k \<notin> set rest
              \<and> k \<noteq> target app
           then Some FRONTIER
           else if k = cur \<and> cur \<noteq> start app then Some EXPLORED
           else cell_at (cell_states app) (fst k) (snd k)))"
proof -
  let ?r = "rows app" and ?c = "cols app"
  define ns where "ns = neighbors_of app cur"
  have gn: "get_neighbors (grid app) cur ?r ?c = Some ns"
    unfolding ns_def neighbors_of_def by (rule get_neighbors_total[OF mg])
  have gn': "get_neighbors (grid app) (last (frontier app)) ?r ?c = Some ns"
    using gn cur by simp
  define cs where "cs = (if cur \<noteq> start app then put (cell_states app) cur EXPLORED else cell_states app)"
  have mcs: "matrix_ok cs ?r ?c" unfolding cs_def using mc by (simp add: matrix_ok_put)
  define b where "b = app\<lparr>frontier := rest,
      explored := insert cur (explored app), cell_states := cs\<rparr>"
  have mb: "matrix_ok (cell_states b) ?r ?c" by (simp add: b_def mcs)
  have rb: "\<forall>n\<in>set (rev ns). in_bounds ?r ?c n" "distinct (rev ns)"
    using neighbors_props(1,2)[OF gn] by auto
  from dfs_loop[OF mb rb, of cur]
  obtain C S where loop: "for_each (dfs_visit cur) (rev ns) b = Some (b\<lparr>
      frontier := frontier b @
        filter (\<lambda>n. n \<notin> explored b \<and> n \<notin> set (frontier b)) (rev ns),
      came_from := C, cell_states := S\<rparr>)"
    and C: "\<And>k. C k = (if k \<in> set (rev ns) \<and> k \<notin> explored b \<and> k \<notin> set (frontier b)
                      \<and> came_from b k = None
                   then Some (Some cur) else came_from b k)"
    and S: "matrix_ok S ?r ?c"
      "\<And>k. in_bounds ?r ?c k \<Longrightarrow> cell_at S (fst k) (snd k) =
          (if k \<in> set (rev ns) \<and> k \<notin> explored b \<and> k \<notin> set (frontier b) \<and> k \<noteq> target b
           then Some FRONTIER else cell_at (cell_states b) (fst k) (snd k))"
    by blast
  have "dfs_step app = Some (b\<lparr>
      frontier := frontier b @ filter (\<lambda>n. n \<notin> explored b \<and> n \<notin> set (frontier b)) (rev ns),
      came_from := C, cell_states := S, step_count := step_count b + 1\<rparr>)"
    using loop[unfolded b_def cs_def cur rest] fr nt[unfolded cur] ne[unfolded cur] gn' mc
      ib[unfolded cur]
    by (cases "last (frontier app) = start app")
       (simp_all add: dfs_step_def Let_def paint_in[where r="?r" and c="?c"] b_def cs_def cur rest)
  then have "dfs_step app = Some (app\<lparr>
      frontier := rest @ filter (\<lambda>n. n \<notin> insert cur (explored app) \<and> n \<notin> set rest) (rev ns),
      explored := insert cur (explored app),
      came_from := C, cell_states := S, step_count := step_count app + 1\<rparr>)"
    by (simp add: b_def)
  moreover have "\<forall>k. C k = (if k \<in> set ns \<and> k \<notin> insert cur (explored app) \<and> k \<notin> set rest
                      \<and> came_from app k = None
                   then Some (Some cur) else came_from app k)"
    by (simp add: C b_def)
  moreover have "\<forall>k. in_bounds ?r ?c k \<longrightarrow> cell_at S (fst k) (snd k) =
          (if k \<in> set ns \<and> k \<notin> insert cur (explored app) \<and> k \<notin> set rest \<and> k \<noteq> target app
           then Some FRONTIER
           else if k = cur \<and> cur \<noteq> start app then Some EXPLORED
           else cell_at (cell_states app) (fst k) (snd k))"
  proof (intro allI impI)
    fix k assume kb: "in_bounds ?r ?c k"
    have "cell_at cs (fst k) (snd k)
        = (if cur \<noteq> start app \<and> k = cur then Some EXPLORED else cell_at (cell_states app) (fst k) (snd k))"
      unfolding cs_def by (rule cell_put_if[OF mc ib kb])
    then show "cell_at S (fst k) (snd k) =
          (if k \<in> set ns \<and> k \<notin> insert cur (explored app) \<and> k \<notin> set rest \<and> k \<noteq> target app
           then Some FRONTIER
           else if k = cur \<and> cur \<noteq> start app then Some EXPLORED
           else cell_at (cell_states app) (fst k) (snd k))"
      using S(2)[OF kb] by (auto simp: b_def)
  qed
  ultimately show ?thesis using S(1) unfolding ns_def by blast
qed

lemma dfs_skip:
  "frontier app \<noteq> [] \<Longrightarrow> last (frontier app) \<in> explored app \<Longrightarrow>
   dfs_step app = Some (app\<lparr>frontier := butlast (frontier app)\<rparr>)"
  by (simp add: dfs_step_def Let_def)

lemma dls_expand:
  assumes fr: "frontier_depth app \<noteq> []" and cur: "last (frontier_depth app) = (cur, d)"
    and rest: "rest = butlast (frontier_depth app)"
    and ns': "ns' = (if d < depth_limit app then rev (neighbors_of app cur) else [])"
    and ne: "cur \<notin> explored app" and nt: "cur \<noteq> target app"
    and mg: "matrix_ok (grid app) (rows app) (cols app)"
    and mc: "matrix_ok (cell_states app) (rows app) (cols app)"
    and ib: "in_bounds (rows app) (cols app) cur"
  shows "\<exists>C S. dls_step app = Some (app\<lparr>
      frontier_depth := rest @ map (\<lambda>n. (n, d + 1)) (filter (\<lambda>n. n \<notin> insert cur (explored app)) ns'),
      explored := insert cur (explored app),
      came_from := C, cell_states := S, step_count := step_count app + 1\<rparr>)
    \<and> (\<forall>k. C k = (if k \<in> set ns' \<and> k \<notin> insert cur (explored app) \<and> came_from app k = None
                   then Some (Some cur) else came_from app k))
    \<and> matrix_ok S (rows app) (cols app)
    \<and> (\<forall>k. in_bounds (rows app) (cols app) k \<longrightarrow> cell_at S (fst k) (snd k) =
          (if k \<in> set ns' \<and> k \<notin> insert cur (explored app) \<and> k \<noteq> target app
           then Some FRONTIER
           else if k = cur \<and> cur \<noteq> start app then Some EXPLORED
           else cell_at (cell_states app) (fst k) (snd k)))"
proof -
  let ?r = "rows app" and ?c = "cols app"
  define ns where "ns = neighbors_of app cur"
  have gn: "get_neighbors (grid app) cur ?r ?c = Some ns"
    unfolding ns_def neighbors_of_def by (rule get_neighbors_total[OF mg])
  define cs where "cs = (if cur \<noteq> start app then put (cell_states app) cur EXPLORED else cell_states app)"
  have mcs: "matrix_ok cs ?r ?c" unfolding cs_def using mc by (simp add: matrix_ok_put)
  define b where "b = app\<lparr>frontier_depth := rest,
      explored := insert cur (explored app), cell_states := cs\<rparr>"
  have mb: "matrix_ok (cell_states b) ?r ?c" by (simp add: b_def mcs)
  have rb: "\<forall>n\<in>set ns'. in_bounds ?r ?c n" "distinct ns'"
    using neighbors_props(1,2)[OF gn] by (auto simp: ns' ns_def)
  from dls_loop[OF mb rb, of cur d]
  obtain C S where loop: "for_each (dls_visit cur d) ns' b = Some (b\<lparr>
      frontier_depth := frontier_depth b @ map (\<lambda>n. (n, d + 1)) (filter (\<lambda>n. n \<notin> explored b) ns'),
      came_from := C, cell_states := S\<rparr>)"
    and C: "\<And>k. C k = (if k \<in> set ns' \<and> k \<notin> explored b \<and> came_from b k = None
                   then Some (Some cur) else came_from b k)"
    and S: "matrix_ok S ?r ?c"
      "\<And>k. in_bounds ?r ?c k \<Longrightarrow> cell_at S (fst k) (snd k) =
          (if k \<in> set ns' \<and> k \<notin> explored b \<and> k \<noteq> target b
           then Some FRONTIER else cell_at (cell_states b) (fst k) (snd k))"
    by blast
  have inner: "(if d < depth_limit app
        then Option.bind (get_neighbors (grid app) cur ?r ?c)
               (\<lambda>neighbors. for_each (dls_visit cur d) (rev neighbors) b)
        else Some b)
      = Some (b\<lparr>
      frontier_depth := frontier_depth b @ map (\<lambda>n. (n, d + 1)) (filter (\<lambda>n. n \<notin> explored b) ns'),
      came_from := C, cell_states := S\<rparr>)"
  proof (cases "d < depth_limit app")
    case True
    then show ?thesis using loop by (simp add: gn ns' ns_def)
  next
    case False
    then have e: "ns' = []" by (simp add: ns')
    from loop show ?thesis using False by (simp add: e)
  qed
  have stepeq: "dls_step app = Option.bind
      (if d < depth_limit app
        then Option.bind (get_neighbors (grid app) cur ?r ?c)
               (\<lambda>neighbors. for_each (dls_visit cur d) (rev neighbors) b)
        else Some b)
      (\<lambda>a. Some (a\<lparr>step_count := step_count a + 1\<rparr>))"
    using fr nt ne mc ib cur
    by (cases "cur = start app")
       (simp_all add: dls_step_def Let_def paint_in[where r="?r" and c="?c"] b_def cs_def rest)
  have "dls_step app = Some (b\<lparr>
      frontier_depth := frontier_depth b @ map (\<lambda>n. (n, d + 1)) (filter (\<lambda>n. n \<notin> explored b) ns'),
      came_from := C, cell_states := S, step_count := step_count b + 1\<rparr>)"
    unfolding stepeq inner by simp
  then have "dls_step app = Some (app\<lparr>
      frontier_depth := rest @ map (\<lambda>n. (n, d + 1)) (filter (\<lambda>n. n \<notin> insert cur (explored app)) ns'),
      explored := insert cur (explored app),
      came_from := C, cell_states := S, step_count := step_count app + 1\<rparr>)"
    by (simp add: b_def)
  moreover have "\<forall>k. C k = (if k \<in> set ns' \<and> k \<notin> insert cur (explored app) \<and> came_from app k = None
                   then Some (Some cur) else came_from app k)"
    by (simp add: C b_def)
  moreover have "\<forall>k. in_bounds ?r ?c k \<longrightarrow> cell_at S (fst k) (snd k) =
          (if k \<in> set ns' \<and> k \<notin> insert cur (explored app) \<and> k \<noteq> target app
           then Some FRONTIER
           else if k = cur \<and> cur \<noteq> start app then Some EXPLORED
           else cell_at (cell_states app) (fst k) (snd k))"
  proof (intro allI impI)
    fix k assume kb: "in_bounds ?r ?c k"
    have "cell_at cs (fst k) (snd k)
        = (if cur \<noteq> start app \<and> k = cur then Some EXPLORED else cell_at (cell_states app) (fst k) (snd k))"
      unfolding cs_def by (rule cell_put_if[OF mc ib kb])
    then show "cell_at S (fst k) (snd k) =
          (if k \<in> set ns' \<and> k \<notin> insert cur (explored app) \<and> k \<noteq> target app
           then Some FRONTIER
           else if k = cur \<and> cur \<noteq> start app then Some EXPLORED
           else cell_at (cell_states app) (fst k) (snd k))"
      using S(2)[OF kb] by (auto simp: b_def)
  qed
  ultimately show ?thesis using S(1) by blast
qed

lemma dls_skip:
  "frontier_depth app \<noteq> [] \<Longrightarrow> last (frontier_depth app) = (cur, d) \<Longrightarrow> cur \<in> explored app \<Longrightarrow>
   dls_step app = Some (app\<lparr>frontier_depth := butlast (frontier_depth app)\<rparr>)"
  by (simp add: dls_step_def Let_def)

lemma iddfs_expand:
  assumes fr: "frontier_depth app \<noteq> []" and cur: "last (frontier_depth app) = (cur, d)"
    and rest: "rest = butlast (frontier_depth app)"
    and ns': "ns' = (if d < current_depth_limit app then rev (neighbors_of app cur) else [])"
    and ne: "cur \<notin> explored app" and nt: "cur \<noteq> target app"
    and mg: "matrix_ok (grid app) (rows app) (cols app)"
    and mc: "matrix_ok (cell_states app) (rows app) (cols app)"
    and ib: "in_bounds (rows app) (cols app) cur"
  shows "\<exists>C S. iddfs_step app = Some (app\<lparr>
      frontier_depth := rest @ map (\<lambda>n. (n, d + 1)) (filter (\<lambda>n. n \<notin> insert cur (explored app)) ns'),
      explored := insert cur (explored app),
      came_from := C, cell_states := S, step_count := step_count app + 1\<rparr>)
    \<and> (\<forall>k. C k = (if k \<in> set ns' \<and> k \<notin> insert cur (explored app) \<and> came_from app k = None
                   then Some (Some cur) else came_from app k))
    \<and> matrix_ok S (rows app) (cols app)
    \<and> (\<forall>k. in_bounds (rows app) (cols app) k \<longrightarrow> cell_at S (fst k) (snd k) =
          (if k \<in> set ns' \<and> k \<notin> insert cur (explored app) \<and> k \<noteq> target app
           then Some FRONTIER
           else if k = cur \<and> cur \<noteq> start app then Some EXPLORED
           else cell_at (cell_states app) (fst k) (snd k)))"
proof -
  let ?r = "rows app" and ?c = "cols app"
  define ns where "ns = neighbors_of app cur"
  have gn: "get_neighbors (grid app) cur ?r ?c = Some ns"
    unfolding ns_def neighbors_of_def by (rule get_neighbors_total[OF mg])
  define cs where "cs = (if cur \<noteq> start app then put (cell_states app) cur EXPLORED else cell_states app)"
  have mcs: "matrix_ok cs ?r ?c" unfolding cs_def using mc by (simp add: matrix_ok_put)
  define b where "b = app\<lparr>frontier_depth := rest,
      explored := insert cur (explored app), cell_states := cs\<rparr>"
  have mb: "matrix_ok (cell_states b) ?r ?c" by (simp add: b_def mcs)
  have rb: "\<forall>n\<in>set ns'. in_bounds ?r ?c n" "distinct ns'"
    using neighbors_props(1,2)[OF gn] by (auto simp: ns' ns_def)
  from dls_loop[OF mb rb, of cur d]
  obtain C S where loop: "for_each (dls_visit cur d) ns' b = Some (b\<lparr>
      frontier_depth := frontier_depth b @ map (\<lambda>n. (n, d + 1)) (filter (\<lambda>n. n \<notin> explored b) ns'),
      came_from := C, cell_states := S\<rparr>)"
    and C: "\<And>k. C k = (if k \<in> set ns' \<and> k \<notin> explored b \<and> came_from b k = None
                   then Some (Some cur) else came_from b k)"
    and S: "matrix_ok S ?r ?c"
      "\<And>k. in_bounds ?r ?c k \<Longrightarrow> cell_at S (fst k) (snd k) =
          (if k \<in> set ns' \<and> k \<notin> explored b \<and> k \<noteq> target b
           then Some FRONTIER else cell_at (cell_states b) (fst k) (snd k))"
    by blast
  have inner: "(if d < current_depth_limit app
        then Option.bind (get_neighbors (grid app) cur ?r ?c)
               (\<lambda>neighbors. for_each (dls_visit cur d) (rev neighbors) b)
        else Some b)
      = Some (b\<lparr>
      frontier_depth := frontier_depth b @ map (\<lambda>n. (n, d + 1)) (filter (\<lambda>n. n \<notin> explored b) ns'),
      came_from := C, cell_states := S\<rparr>)"
  proof (cases "d < current_depth_limit app")
    case True
    then show ?thesis using loop by (simp add: gn ns' ns_def)
  next
    case False
    then have e: "ns' = []" by (simp add: ns')
    from loop show ?thesis using False by (simp add: e)
  qed
  have stepeq: "iddfs_step app = Option.bind
      (if d < current_depth_limit app
        then Option.bind (get_neighbors (grid app) cur ?r ?c)
               (\<lambda>neighbors. for_each (dls_visit cur d) (rev neighbors) b)
        else Some b)
      (\<lambda>a. Some (a\<lparr>step_count := step_count a + 1\<rparr>))"
    using fr nt ne mc ib cur
    by (cases "cur = start app")
       (simp_all add: iddfs_step_def Let_def paint_in[where r="?r" and c="?c"] b_def cs_def rest)
  have "iddfs_step app = Some (b\<lparr>
      frontier_depth := frontier_depth b @ map (\<lambda>n. (n, d + 1)) (filter (\<lambda>n. n \<notin> explored b) ns'),
      came_from := C, cell_states := S, step_count := step_count b + 1\<rparr>)"
    unfolding stepeq inner by simp
  then have "iddfs_step app = Some (app\<lparr>
      frontier_depth := rest @ map (\<lambda>n. (n, d + 1)) (filter (\<lambda>n. n \<notin> insert cur (explored app)) ns'),
      explored := insert cur (explored app),
      came_from := C, cell_states := S, step_count := step_count app + 1\<rparr>)"
    by (simp add: b_def)
  moreover have "\<forall>k. C k = (if k \<in> set ns' \<and> k \<notin> insert cur (explored app) \<and> came_from app k = None
                   then Some (Some cur) else came_from app k)"
    by (simp add: C b_def)
  moreover have "\<forall>k. in_bounds ?r ?c k \<longrightarrow> cell_at S (fst k) (snd k) =
          (if k \<in> set ns' \<and> k \<notin> insert cur (explored app) \<and> k \<noteq> target app
           then Some FRONTIER
           else if k = cur \<and> cur \<noteq> start app then Some EXPLORED
           else cell_at (cell_states app) (fst k) (snd k))"
  proof (intro allI impI)
    fix k assume kb: "in_bounds ?r ?c k"
    have "cell_at cs (fst k) (snd k)
        = (if cur \<noteq> start app \<and> k = cur then Some EXPLORED else cell_at (cell_states app) (fst k) (snd k))"
      unfolding cs_def by (rule cell_put_if[OF mc ib kb])
    then show "cell_at S (fst k) (snd k) =
          (if k \<in> set ns' \<and> k \<notin> insert cur (explored app) \<and> k \<noteq> target app
           then Some FRONTIER
           else if k = cur \<and> cur \<noteq> start app then Some EXPLORED
           else cell_at (cell_states app) (fst k) (snd k))"
      using S(2)[OF kb] by (auto simp: b_def)
  qed
  ultimately show ?thesis using S(1) by blast
qed

lemma iddfs_skip:
  "frontier_depth app \<noteq> [] \<Longrightarrow> last (frontier_depth app) = (cur, d) \<Longrightarrow> cur \<in> explored app \<Longrightarrow>
   iddfs_step app = Some (app\<lparr>frontier_depth := butlast (frontier_depth app)\<rparr>)"
  by (simp add: iddfs_step_def Let_def)

lemma iddfs_restart:
  assumes "frontier_depth app = []" and "current_depth_limit app + 1 \<le> 50"
    and "0 \<le> rows app" and "0 \<le> cols app"
    and "in_bounds (rows app) (cols app) (start app)"
  shows "iddfs_step app = Some (app\<lparr>current_depth_limit := current_depth_limit app + 1,
      explored := {}, frontier_depth := [(start app, 0)], came_from := [start app \<mapsto> None],
      cell_states := put (create_cell_states (rows app) (cols app)) (start app) FRONTIER\<rparr>)"
  using assms
  by (simp add: iddfs_step_def Let_def
      paint_in[where r="rows app" and c="cols app"] matrix_ok_create)

lemma iddfs_give_up:
  assumes "frontier_depth app = []" and "current_depth_limit app + 1 > 50"
  shows "iddfs_step app
    = Some (finish_search (app\<lparr>current_depth_limit := current_depth_limit app + 1\<rparr>) False)"
  using assms by (simp add: iddfs_step_def Let_def)

lemma heappop_Some: "h \<noteq> [] \<Longrightarrow> \<exists>e rest. heappop h = Some (e, rest)"
  by (cases h) (simp_all add: Let_def)

lemma ucs_skip:
  "heappop (frontier_heap app) = Some ((w0, cur), rest) \<Longrightarrow> cur \<in> explored app \<Longrightarrow>
   ucs_step app = Some (app\<lparr>frontier_heap := rest\<rparr>)"
proof -
  assume pop: "heappop (frontier_heap app) = Some ((w0, cur), rest)" and e: "cur \<in> explored app"
  from pop have fr: "frontier_heap app \<noteq> []" by (cases "frontier_heap app") simp_all
  show ?thesis by (simp add: ucs_step_def Let_def pop fr e)
qed

lemma ucs_expand:
  assumes pop: "heappop (frontier_heap app) = Some ((w0, cur), rest)"
    and ne: "cur \<notin> explored app" and nt: "cur \<noteq> target app"
    and cost: "cost_so_far app cur = Some w"
    and mg: "matrix_ok (grid app) (rows app) (cols app)"
    and mc: "matrix_ok (cell_states app) (rows app) (cols app)"
    and ib: "in_bounds (rows app) (cols app) cur"
  shows "\<exists>K C S. ucs_step app = Some (app\<lparr>
      frontier_heap := rest @ map (\<lambda>n. (w + get_move_cost cur n, n))
          (filter (improves (app\<lparr>explored := insert cur (explored app)\<rparr>) cur) (neighbors_of app cur)),
      explored := insert cur (explored app), cost_so_far := K,
      came_from := C, cell_states := S, step_count := step_count app + 1\<rparr>)
    \<and> (\<forall>k. K k = (if k \<in> set (neighbors_of app cur) \<and>
                      improves (app\<lparr>explored := insert cur (explored app)\<rparr>) cur k
                   then Some (w + get_move_cost cur k) else cost_so_far app k))
    \<and> (\<forall>k. C k = (if k \<in> set (neighbors_of app cur) \<and>
                      improves (app\<lparr>explored := insert cur (explored app)\<rparr>) cur k
                   then Some (Some cur) else came_from app k))
    \<and> matrix_ok S (rows app) (cols app)
    \<and> (\<forall>k. in_bounds (rows app) (cols app) k \<longrightarrow> cell_at S (fst k) (snd k) =
          (if k \<in> set (neighbors_of app cur) \<and>
              improves (app\<lparr>explored := insert cur (explored app)\<rparr>) cur k \<and> k \<noteq> target app
           then Some FRONTIER
           else if k = cur \<and> cur \<noteq> start app then Some EXPLORED
           else cell_at (cell_states app) (fst k) (snd k)))"
proof -
  let ?r = "rows app" and ?c = "cols app"
  define ns where "ns = neighbors_of app cur"
  have gn: "get_neighbors (grid app) cur ?r ?c = Some ns"
    unfolding ns_def neighbors_of_def by (rule get_neighbors_total[OF mg])
  from pop have fr: "frontier_heap app \<noteq> []" by (cases "frontier_heap app") simp_all
  define cs where "cs = (if cur \<noteq> start app then put (cell_states app) cur EXPLORED else cell_states app)"
  have mcs: "matrix_ok cs ?r ?c" unfolding cs_def using mc by (simp add: matrix_ok_put)
  define b where "b = app\<lparr>frontier_heap := rest,
      explored := insert cur (explored app), cell_states := cs\<rparr>"
  have mb: "matrix_ok (cell_states b) ?r ?c" by (simp add: b_def mcs)
  have cb: "cost_so_far b cur = Some w" by (simp add: b_def cost)
  have ib': "improves b cur = improves (app\<lparr>explored := insert cur (explored app)\<rparr>) cur"
    by (rule ext) (simp add: improves_def b_def cost)
  from ucs_loop[OF mb neighbors_props(2)[OF gn] neighbors_props(1)[OF gn] neighbors_props(3)[OF gn] cb]
  obtain K C S where loop: "for_each (ucs_visit cur) ns b = Some (b\<lparr>
      cost_so_far := K,
      frontier_heap := frontier_heap b @
         map (\<lambda>n. (w + get_move_cost cur n, n)) (filter (improves b cur) ns),
      came_from := C, cell_states := S\<rparr>)"
    and K: "\<And>k. K k = (if k \<in> set ns \<and> improves b cur k
                   then Some (w + get_move_cost cur k) else cost_so_far b k)"
    and C: "\<And>k. C k = (if k \<in> set ns \<and> improves b cur k
                   then Some (Some cur) else came_from b k)"
    and S: "matrix_ok S ?r ?c"
      "\<And>k. in_bounds ?r ?c k \<Longrightarrow> cell_at S (fst k) (snd k) =
          (if k \<in> set ns \<and> improves b cur k \<and> k \<noteq> target b
           then Some FRONTIER else cell_at (cell_states b) (fst k) (snd k))"
    by blast
  have stepeq: "ucs_step app = Option.bind (for_each (ucs_visit cur) ns b)
      (\<lambda>a. Some (a\<lparr>step_count := step_count a + 1\<rparr>))"
    using fr nt ne mc ib pop gn
    by (cases "cur = start app")
       (simp_all add: ucs_step_def Let_def paint_in[where r="?r" and c="?c"] b_def cs_def)
  have "ucs_step app = Some (app\<lparr>
      frontier_heap := rest @ map (\<lambda>n. (w + get_move_cost cur n, n)) (filter (improves b cur) ns),
      explored := insert cur (explored app), cost_so_far := K,
      came_from := C, cell_states := S, step_count := step_count app + 1\<rparr>)"
    unfolding stepeq loop by (simp add: b_def)
  moreover have "\<forall>k. K k = (if k \<in> set ns \<and> improves b cur k
                   then Some (w + get_move_cost cur k) else cost_so_far app k)"
    by (simp add: K b_def)
  moreover have "\<forall>k. C k = (if k \<in> set ns \<and> improves b cur k
                   then Some (Some cur) else came_from app k)"
    by (simp add: C b_def)
  moreover have "\<forall>k. in_bounds ?r ?c k \<longrightarrow> cell_at S (fst k) (snd k) =
          (if k \<in> set ns \<and> improves b cur k \<and> k \<noteq> target app
           then Some FRONTIER
           else if k = cur \<and> cur \<noteq> start app then Some EXPLORED
           else cell_at (cell_states app) (fst k) (snd k))"
  proof (intro allI impI)
    fix k assume kb: "in_bounds ?r ?c k"
    have "cell_at cs (fst k) (snd k)
        = (if cur \<noteq> start app \<and> k = cur then Some EXPLORED else cell_at (cell_states app) (fst k) (snd k))"
      unfolding cs_def by (rule cell_put_if[OF mc ib kb])
    then show "cell_at S (fst k) (snd k) =
          (if k \<in> set ns \<and> improves b cur k \<and> k \<noteq> target app
           then Some FRONTIER
           else if k = cur \<and> cur \<noteq> start app then Some EXPLORED
           else cell_at (cell_states app) (fst k) (snd k))"
      using S(2)[OF kb] by (auto simp: b_def)
  qed
  ultimately show ?thesis using S(1) unfolding ns_def ib' by blast
qed

lemma forward_expand:
  assumes turn: "step_count app mod 2 = 0"
    and fr: "frontier_forward app = cur # rest"
    and mg: "matrix_ok (grid app) (rows app) (cols app)"
    and mc: "matrix_ok (cell_states app) (rows app) (cols app)"
    and ib: "in_bounds (rows app) (cols app) cur"
    and nm: "cur \<notin> explored_backward app"
  shows "\<exists>C S. bidirectional_step app = Some (app\<lparr>
      frontier_forward := rest @ filter (\<lambda>n. n \<notin> insert cur (explored_forward app) \<and> n \<notin> set rest)
          (neighbors_of app cur),
      explored_forward := insert cur (explored_forward app),
      came_from_forward := C, cell_states := S, step_count := step_count app + 1\<rparr>)
    \<and> (\<forall>k. C k = (if k \<in> set (neighbors_of app cur) \<and> k \<notin> insert cur (explored_forward app) \<and> k \<notin> set rest
                   then Some (Some cur) else came_from_forward app k))
    \<and> matrix_ok S (rows app) (cols app)
    \<and> (\<forall>k. in_bounds (rows app) (cols app) k \<longrightarrow> cell_at S (fst k) (snd k) =
          (if k \<in> set (neighbors_of app cur) \<and> k \<notin> insert cur (explored_forward app) \<and> k \<notin> set rest
              \<and> k \<noteq> target app
           then Some FRONTIER
           else if k = cur \<and> cur \<noteq> start app then Some EXPLORED
           else cell_at (cell_states app) (fst k) (snd k)))"
proof -
  let ?r = "rows app" and ?c = "cols app"
  define ns where "ns = neighbors_of app cur"
  have gn: "get_neighbors (grid app) cur ?r ?c = Some ns"
    unfolding ns_def neighbors_of_def by (rule get_neighbors_total[OF mg])
  define cs where "cs = (if cur \<noteq> start app then put (cell_states app) cur EXPLORED else cell_states app)"
  have mcs: "matrix_ok cs ?r ?c" unfolding cs_def using mc by (simp add: matrix_ok_put)
  define b where "b = app\<lparr>frontier_forward := rest,
      explored_forward := insert cur (explored_forward app), cell_states := cs\<rparr>"
  have mb: "matrix_ok (cell_states b) ?r ?c" by (simp add: b_def mcs)
  from forward_loop[OF mb neighbors_props(2)[OF gn] neighbors_props(1)[OF gn], of cur]
  obtain C S where loop: "for_each (forward_visit cur) ns b = Some (b\<lparr>
      frontier_forward := frontier_forward b @
        filter (\<lambda>n. n \<notin> explored_forward b \<and> n \<notin> set (frontier_forward b)) ns,
      came_from_forward := C, cell_states := S\<rparr>)"
    and C: "\<And>k. C k = (if k \<in> set ns \<and> k \<notin> explored_forward b \<and> k \<notin> set (frontier_forward b)
                   then Some (Some cur) else came_from_forward b k)"
    and S: "matrix_ok S ?r ?c"
      "\<And>k. in_bounds ?r ?c k \<Longrightarrow> cell_at S (fst k) (snd k) =
          (if k \<in> set ns \<and> k \<notin> explored_forward b \<and> k \<notin> set (frontier_forward b) \<and> k \<noteq> target b
           then Some FRONTIER else cell_at (cell_states b) (fst k) (snd k))"
    by blast
  have stepeq: "bidirectional_step app = Option.bind (for_each (forward_visit cur) ns b)
      (\<lambda>a. Some (a\<lparr>step_count := step_count a + 1\<rparr>))"
    using turn fr nm mc ib gn
    by (cases "cur = start app")
       (simp_all add: bidirectional_step_def Let_def paint_in[where r="?r" and c="?c"] b_def cs_def)
  have "bidirectional_step app = Some (app\<lparr>
      frontier_forward := rest @ filter (\<lambda>n. n \<notin> insert cur (explored_forward app) \<and> n \<notin> set rest) ns,
      explored_forward := insert cur (explored_forward app),
      came_from_forward := C, cell_states := S, step_count := step_count app + 1\<rparr>)"
    unfolding stepeq loop by (simp add: b_def)
  moreover have "\<forall>k. C k = (if k \<in> set ns \<and> k \<notin> insert cur (explored_forward app) \<and> k \<notin> set rest
                   then Some (Some cur) else came_from_forward app k)"
    by (simp add: C b_def)
  moreover have "\<forall>k. in_bounds ?r ?c k \<longrightarrow> cell_at S (fst k) (snd k) =
          (if k \<in> set ns \<and> k \<notin> insert cur (explored_forward app) \<and> k \<notin> set rest \<and> k \<noteq> target app
           then Some FRONTIER
           else if k = cur \<and> cur \<noteq> start app then Some EXPLORED
           else cell_at (cell_states app) (fst k) (snd k))"
  proof (intro allI impI)
    fix k assume kb: "in_bounds ?r ?c k"
    have "cell_at cs (fst k) (snd k)
        = (if cur \<noteq> start app \<and> k = cur then Some EXPLORED else cell_at (cell_states app) (fst k) (snd k))"
      unfolding cs_def by (rule cell_put_if[OF mc ib kb])
    then show "cell_at S (fst k) (snd k) =
          (if k \<in> set ns \<and> k \<notin> insert cur (explored_forward app) \<and> k \<notin> set rest \<and> k \<noteq> target app
           then Some FRONTIER
           else if k = cur \<and> cur \<noteq> start app then Some EXPLORED
           else cell_at (cell_states app) (fst k) (snd k))"
      using S(2)[OF kb] by (auto simp: b_def)
  qed
  ultimately show ?thesis using S(1) unfolding ns_def by blast
qed

lemma backward_expand:
  assumes turn: "\<not> (step_count app mod 2 = 0 \<and> frontier_forward app \<noteq> [])"
    and fr: "frontier_backward app = cur # rest"
    and mg: "matrix_ok (grid app) (rows app) (cols app)"
    and mc: "matrix_ok (cell_states app) (rows app) (cols app)"
    and ib: "in_bounds (rows app) (cols app) cur"
    and nm: "cur \<notin> explored_forward app"
  shows "\<exists>C S. bidirectional_step app = Some (app\<lparr>
      frontier_backward := rest @ filter (\<lambda>n. n \<notin> insert cur (explored_backward app) \<and> n \<notin> set rest)
          (neighbors_of app cur),
      explored_backward := insert cur (explored_backward app),
      came_from_backward := C, cell_states := S, step_count := step_count app + 1\<rparr>)
    \<and> (\<forall>k. C k = (if k \<in> set (neighbors_of app cur) \<and> k \<notin> insert cur (explored_backward app) \<and> k \<notin> set rest
                   then Some (Some cur) else came_from_backward app k))
    \<and> matrix_ok S (rows app) (cols app)
    \<and> (\<forall>k. in_bounds (rows app) (cols app) k \<longrightarrow> cell_at S (fst k) (snd k) =
          (if k \<in> set (neighbors_of app cur) \<and> k \<notin> insert cur (explored_backward app) \<and> k \<notin> set rest
              \<and> k \<noteq> start app
           then Some FRONTIER2
           else if k = cur \<and> cur \<noteq> target app then Some EXPLORED2
           else cell_at (cell_states app) (fst k) (snd k)))"
proof -
  let ?r = "rows app" and ?c = "cols app"
  define ns where "ns = neighbors_of app cur"
  have gn: "get_neighbors (grid app) cur ?r ?c = Some ns"
    unfolding ns_def neighbors_of_def by (rule get_neighbors_total[OF mg])
  define cs where "cs = (if cur \<noteq> target app then put (cell_states app) cur EXPLORED2 else cell_states app)"
  have mcs: "matrix_ok cs ?r ?c" unfolding cs_def using mc by (simp add: matrix_ok_put)
  define b where "b = app\<lparr>frontier_backward := rest,
      explored_backward := insert cur (explored_backward app), cell_states := cs\<rparr>"
  have mb: "matrix_ok (cell_states b) ?r ?c" by (simp add: b_def mcs)
  from backward_loop[OF mb neighbors_props(2)[OF gn] neighbors_props(1)[OF gn], of cur]
  obtain C S where loop: "for_each (backward_visit cur) ns b = Some (b\<lparr>
      frontier_backward := frontier_backward b @
        filter (\<lambda>n. n \<notin> explored_backward b \<and> n \<notin> set (frontier_backward b)) ns,
      came_from_backward := C, cell_states := S\<rparr>)"
    and C: "\<And>k. C k = (if k \<in> set ns \<and> k \<notin> explored_backward b \<and> k \<notin> set (frontier_backward b)
                   then Some (Some cur) else came_from_backward b k)"
    and S: "matrix_ok S ?r ?c"
      "\<And>k. in_bounds ?r ?c k \<Longrightarrow> cell_at S (fst k) (snd k) =
          (if k \<in> set ns \<and> k \<notin> explored_backward b \<and> k \<notin> set (frontier_backward b) \<and> k \<noteq> start b
           then Some FRONTIER2 else cell_at (cell_states b) (fst k) (snd k))"
    by blast
  have stepeq: "bidirectional_step app = Option.bind (for_each (backward_visit cur) ns b)
      (\<lambda>a. Some (a\<lparr>step_count := step_count a + 1\<rparr>))"
  proof -
    have t: "(if step_count app mod 2 = 0 \<and> frontier_forward app \<noteq> [] then x else y) = y"
      for x y :: "app option"
      by (rule if_not_P[OF turn])
    show ?thesis
      using fr nm mc ib gn
      by (cases "cur = target app")
         (simp_all add: bidirectional_step_def t Let_def paint_in[where r="?r" and c="?c"]
            b_def cs_def)
  qed
  have "bidirectional_step app = Some (app\<lparr>
      frontier_backward := rest @ filter (\<lambda>n. n \<notin> insert cur (explored_backward app) \<and> n \<notin> set rest) ns,
      explored_backward := insert cur (explored_backward app),
      came_from_backward := C, cell_states := S, step_count := step_count app + 1\<rparr>)"
    unfolding stepeq loop by (simp add: b_def)
  moreover have "\<forall>k. C k = (if k \<in> set ns \<and> k \<notin> insert cur (explored_backward app) \<and> k \<notin> set rest
                   then Some (Some cur) else came_from_backward app k)"
    by (simp add: C b_def)
  moreover have "\<forall>k. in_bounds ?r ?c k \<longrightarrow> cell_at S (fst k) (snd k) =
          (if k \<in> set ns \<and> k \<notin> insert cur (explored_backward app) \<and> k \<notin> set rest \<and> k \<noteq> start app
           then Some FRONTIER2
           else if k = cur \<and> cur \<noteq> target app then Some EXPLORED2
           else cell_at (cell_states app) (fst k) (snd k))"
  proof (intro allI impI)
    fix k assume kb: "in_bounds ?r ?c k"
    have "cell_at cs (fst k) (snd k)
        = (if cur \<noteq> target app \<and> k = cur then Some EXPLORED2 else cell_at (cell_states app) (fst k) (snd k))"
      unfolding cs_def by (rule cell_put_if[OF mc ib kb])
    then show "cell_at S (fst k) (snd k) =
          (if k \<in> set ns \<and> k \<notin> insert cur (explored_backward app) \<and> k \<notin> set rest \<and> k \<noteq> start app
           then Some FRONTIER2
           else if k = cur \<and> cur \<noteq> target app then Some EXPLORED2
           else cell_at (cell_states app) (fst k) (snd k))"
      using S(2)[OF kb] by (auto simp: b_def)
  qed
  ultimately show ?thesis using S(1) unfolding ns_def by blast
qed

lemma bidirectional_idle:
  "step_count app mod 2 \<noteq> 0 \<Longrightarrow> frontier_backward app = [] \<Longrightarrow> frontier_forward app \<noteq> [] \<Longrightarrow>
   bidirectional_step app = Some (app\<lparr>step_count := step_count app + 1\<rparr>)"
  by (simp add: bidirectional_step_def)

lemma bidirectional_fail:
  "frontier_backward app = [] \<Longrightarrow> frontier_forward app = [] \<Longrightarrow>
   bidirectional_step app = Some (finish_search app False)"
  by (simp add: bidirectional_step_def)

section \<open>Paths of the neighbor model\<close>

lemma is_move_iff:
  "matrix_ok g r c \<Longrightarrow> is_move g r c a b \<longleftrightarrow> open_cell g r c b \<and> b \<in> shift a ` set movements"
  by (auto simp: is_move_def get_neighbors_total)

lemma is_move_sym:
  assumes "matrix_ok g r c" and "is_move g r c a b" and "open_cell g r c a"
  shows "is_move g r c b a"
proof -
  from assms obtain d where d: "d \<in> set movements" "b = shift a d"
    by (auto simp: is_move_iff)
  then have "(- fst d, - snd d) \<in> set movements" "a = shift b (- fst d, - snd d)"
    by (auto simp: movements_def shift_def)
  then show ?thesis using assms by (auto simp: is_move_iff)
qed

lemma connected_refl: "connected g r c a a"
  unfolding connected_def is_path_def by (rule exI[of _ "[a]"]) simp

lemma connected_step:
  assumes "connected g r c a b" and "is_move g r c b n"
  shows "connected g r c a n"
proof -
  from assms(1) obtain p where p: "p \<noteq> []" "hd p = a" "last p = b" "successively (is_move g r c) p"
    by (auto simp: connected_def is_path_def)
  then have "successively (is_move g r c) (p @ [n])"
    using assms(2) by (simp add: successively_append_iff)
  with p show ?thesis
    unfolding connected_def is_path_def by (intro exI[of _ "p @ [n]"]) simp
qed

lemma connected_back:
  assumes "connected g r c b t" and "is_move g r c n b"
  shows "connected g r c n t"
proof -
  from assms(1) obtain p where p: "p \<noteq> []" "hd p = b" "last p = t" "successively (is_move g r c) p"
    by (auto simp: connected_def is_path_def)
  then have "successively (is_move g r c) (n # p)"
    using assms(2) by (cases p) simp_all
  with p show ?thesis
    unfolding connected_def is_path_def by (intro exI[of _ "n # p"]) simp
qed

lemma connected_trans:
  assumes "connected g r c a b" and "connected g r c b t"
  shows "connected g r c a t"
proof -
  from assms(2) obtain q where q: "q \<noteq> []" "hd q = b" "last q = t" "successively (is_move g r c) q"
    by (auto simp: connected_def is_path_def)
  then show ?thesis using assms(1)
  proof (induction q arbitrary: b)
    case Nil
    then show ?case by simp
  next
    case (Cons x q)
    show ?case
    proof (cases q)
      case Nil
      with Cons.prems show ?thesis by simp
    next
      case (Cons y q')
      with Cons.prems have m: "is_move g r c b y" and s: "successively (is_move g r c) q"
        by simp_all
      have "connected g r c a y" by (rule connected_step[OF Cons.prems(5) m])
      from Cons.IH[OF _ _ _ s this] Cons.prems \<open>q = y # q'\<close> show ?thesis by simp
    qed
  qed
qed

section \<open>Running until the search fails\<close>

lemma ticks_Suc: "update s = Some s' \<Longrightarrow> ticks (Suc n) s = ticks n s'"
  by simp

lemma run_until_failure:
  assumes wf: "wf R"
    and step: "\<And>s. I s \<Longrightarrow> \<exists>s'. update s = Some s' \<and> ((I s' \<and> (s', s) \<in> R) \<or> failed s')"
    and init: "I s"
  shows "\<exists>n s'. ticks n s = Some s' \<and> failed s'"
  using wf init
proof (induction s rule: wf_induct_rule)
  case (less s)
  from step[OF less.prems] obtain s' where u: "update s = Some s'"
    and d: "(I s' \<and> (s', s) \<in> R) \<or> failed s'" by blast
  from d show ?case
  proof
    assume "I s' \<and> (s', s) \<in> R"
    with less.IH obtain n s'' where "ticks n s' = Some s''" "failed s''" by blast
    with u have "ticks (Suc n) s = Some s''" by simp
    with \<open>failed s''\<close> show ?thesis by blast
  next
    assume "failed s'"
    with u have "ticks (Suc 0) s = Some s'" by simp
    with \<open>failed s'\<close> show ?thesis by blast
  qed
qed

section \<open>Searching for a target that is cut off\<close>

lemma finite_cells: "finite {n. in_bounds r c n}"
proof -
  have "{n. in_bounds r c n} \<subseteq> {0..<r} \<times> {0..<c}"
    by (auto simp: in_bounds_def)
  then show ?thesis by (rule finite_subset) simp
qed

lemma finite_unseen: "finite (unseen r c E F)"
  by (rule finite_subset[OF _ finite_cells[of r c]]) (auto simp: unseen_def)

lemma unseen_expand:
  "card (unseen r c (insert cur E) (rest @ new)) \<le> card (unseen r c E (cur # rest))"
  by (rule card_mono[OF finite_unseen]) (auto simp: unseen_def)

lemma unseen_expand_strict:
  assumes "new \<noteq> []"
    and "\<forall>n\<in>set new. in_bounds r c n \<and> n \<notin> E \<and> n \<noteq> cur \<and> n \<notin> set rest"
  shows "card (unseen r c (insert cur E) (rest @ new)) < card (unseen r c E (cur # rest))"
proof (rule psubset_card_mono[OF finite_unseen])
  from assms(1) obtain x where x: "x \<in> set new" by (cases new) auto
  with assms(2) have "x \<in> unseen r c E (cur # rest)" by (auto simp: unseen_def)
  moreover from x have "x \<notin> unseen r c (insert cur E) (rest @ new)" by (simp add: unseen_def)
  moreover have "unseen r c (insert cur E) (rest @ new) \<subseteq> unseen r c E (cur # rest)"
    by (auto simp: unseen_def)
  ultimately show "unseen r c (insert cur E) (rest @ new) \<subset> unseen r c E (cur # rest)"
    by blast
qed

lemma unexplored_shrinks:
  assumes "in_bounds r c cur" and "cur \<notin> E"
  shows "card (unseen r c (insert cur E) []) < card (unseen r c E [])"
proof (rule psubset_card_mono[OF finite_unseen])
  from assms show "unseen r c (insert cur E) [] \<subset> unseen r c E []"
    by (auto simp: unseen_def)
qed

lemma neighbor_reached:
  assumes "matrix_ok (grid s) (rows s) (cols s)" and "reached s cur"
    and "n \<in> set (neighbors_of s cur)"
  shows "reached s n"
proof -
  from assms(3) have o: "open_cell (grid s) (rows s) (cols s) n"
    and "n \<in> shift cur ` set movements"
    by (auto simp: neighbors_of_def)
  with assms(1) have "is_move (grid s) (rows s) (cols s) cur n" by (simp add: is_move_iff)
  with assms(2) have "connected (grid s) (rows s) (cols s) (start s) n"
    unfolding reached_def by (blast intro: connected_step)
  with o show ?thesis by (simp add: reached_def open_cell_def)
qed

lemma failed_finish:
  "frontier_empty s \<Longrightarrow> failed (finish_search s False)"
  by (simp add: failed_def finish_search_def frontier_empty_def split: algorithm.splits)

lemma bfs_progress:
  assumes "bfs_inv s"
  shows "\<exists>s'. update s = Some s' \<and> ((bfs_inv s' \<and> (s', s) \<in> bfs_rel) \<or> failed s')"
proof (cases "frontier s")
  case Nil
  with assms have "update s = Some (finish_search s False)"
    by (simp add: bfs_inv_def frame_def update_def algorithm_step_def bfs_step_def)
  moreover have "failed (finish_search s False)"
    using Nil assms by (intro failed_finish) (simp add: frontier_empty_def bfs_inv_def)
  ultimately show ?thesis by blast
next
  case (Cons cur rest)
  from assms have f: "frame s" and alg: "selected_algorithm s = BFS" and cut: "cut_off s"
    and fr: "\<forall>n\<in>set (frontier s). reached s n"
    by (simp_all add: bfs_inv_def)
  from f have mg: "matrix_ok (grid s) (rows s) (cols s)"
    and mc: "matrix_ok (cell_states s) (rows s) (cols s)" and run: "searching s"
    by (simp_all add: frame_def)
  from fr Cons have r: "reached s cur" by simp
  then have ib: "in_bounds (rows s) (cols s) cur" by (simp add: reached_def)
  from r cut have nt: "cur \<noteq> target s" by (auto simp: reached_def cut_off_def)
  define new where
    "new = filter (\<lambda>n. n \<notin> insert cur (explored s) \<and> n \<notin> set rest) (neighbors_of s cur)"
  from bfs_expand[OF Cons nt mg mc ib] obtain C S where
    st: "bfs_step s = Some (s\<lparr>frontier := rest @ new, explored := insert cur (explored s),
           came_from := C, cell_states := S, step_count := step_count s + 1\<rparr>)"
    and mS: "matrix_ok S (rows s) (cols s)"
    unfolding new_def by blast
  define s' where "s' = s\<lparr>frontier := rest @ new, explored := insert cur (explored s),
           came_from := C, cell_states := S, step_count := step_count s + 1\<rparr>"
  have u: "update s = Some s'"
    using st run alg by (simp add: update_def algorithm_step_def s'_def)
  have nb: "\<forall>n\<in>set new. reached s n \<and> n \<notin> explored s \<and> n \<noteq> cur \<and> n \<notin> set rest"
    using neighbor_reached[OF mg r] by (auto simp: new_def)
  have inv: "bfs_inv s'"
    using f cut alg fr Cons nb mS
    by (auto simp: bfs_inv_def frame_def reached_def cut_off_def s'_def)
  have le: "card (unseen (rows s) (cols s) (insert cur (explored s)) (rest @ new))
      \<le> card (unseen (rows s) (cols s) (explored s) (cur # rest))"
    by (rule unseen_expand)
  have dec: "(s', s) \<in> bfs_rel"
  proof (cases "new = []")
    case True
    with le show ?thesis by (auto simp: bfs_rel_def s'_def Cons)
  next
    case False
    from unseen_expand_strict[OF False, of "rows s" "cols s" "explored s" cur rest] nb
    show ?thesis by (auto simp: bfs_rel_def s'_def Cons reached_def)
  qed
  from u inv dec show ?thesis by blast
qed

end
